theory Spec2Isabelle
  imports Main "HOL-Library.Sublist" "HOL-Library.Multiset"
begin

section \<open>SmartPark: the allocation engine of src/app.js\<close>

text \<open>
  The engine of \<^verbatim>\<open>src/app.js\<close> keeps three module-level collections:
  \<^verbatim>\<open>parkingSlots\<close> (the SlotTable), \<^verbatim>\<open>arrayList\<close> (the ReservationList) and
  \<^verbatim>\<open>queue\<close> (the WaitQueue). The functions \<^verbatim>\<open>insertReservation\<close>,
  \<^verbatim>\<open>deleteReservation\<close>, \<^verbatim>\<open>sortBySlot\<close> and \<^verbatim>\<open>search\<close> are embedded
  below as functions on an explicit state. Rendering (\<^verbatim>\<open>renderGrid\<close>,
  \<^verbatim>\<open>renderArrayList\<close>, \<^verbatim>\<open>renderQueue\<close>, \<^verbatim>\<open>updateCounters\<close>) and
  \<^verbatim>\<open>saveState\<close> only read the collections and are left out; \<^verbatim>\<open>alert\<close> and
  \<^verbatim>\<open>confirm\<close> dialogs are recorded as the result value of an operation.
\<close>

subsection \<open>JavaScript strings\<close>

text \<open>
  A JavaScript string is a sequence of UTF-16 code units. A \<^typ>\<open>char\<close> stands for the
  code unit of the same number, so the model covers the strings whose code units are
  below 256 (Latin-1).

  \<^verbatim>\<open>String.prototype.trim\<close> removes WhiteSpace and LineTerminator code units at both
  ends; below 256 these are TAB, LF, VT, FF, CR, SP and NBSP.
\<close>

definition isWhiteSpace :: "char \<Rightarrow> bool" where
  "isWhiteSpace c = (of_char c \<in> set [9, 10, 11, 12, 13, 32, 160 :: nat])"

definition trimStart :: "string \<Rightarrow> string" where
  "trimStart str = dropWhile isWhiteSpace str"

definition trim :: "string \<Rightarrow> string" where
  "trim str = rev (dropWhile isWhiteSpace (rev (dropWhile isWhiteSpace str)))"

text \<open>
  \<^verbatim>\<open>String.prototype.toLowerCase\<close>: below 256 the code units with a lower-case
  mapping are A..Z and U+00C0..U+00DE without U+00D7; each maps to the code unit 32 above.
\<close>

definition lowerChar :: "char \<Rightarrow> char" where
  "lowerChar c =
     (let n = (of_char c :: nat)
      in if (65 \<le> n \<and> n \<le> 90) \<or> (192 \<le> n \<and> n \<le> 222 \<and> n \<noteq> 215)
         then char_of (n + 32) else c)"

definition toLowerCase :: "string \<Rightarrow> string" where
  "toLowerCase str = map lowerChar str"

text \<open>
  \<^verbatim>\<open>hay.includes(needle)\<close>: some position of \<open>hay\<close> starts a copy of \<open>needle\<close>;
  the positions are tried from the left, the position at the end included.
\<close>

fun startsWith :: "string \<Rightarrow> string \<Rightarrow> bool" where
  "startsWith hay [] = True"
| "startsWith [] (c # needle) = False"
| "startsWith (h # hay) (c # needle) = (h = c \<and> startsWith hay needle)"

fun includesJS :: "string \<Rightarrow> string \<Rightarrow> bool" where
  "includesJS [] needle = startsWith [] needle"
| "includesJS (h # hay) needle = (startsWith (h # hay) needle \<or> includesJS hay needle)"

subsection \<open>JavaScript numbers\<close>

text \<open>
  The numbers the engine handles come from \<^verbatim>\<open>parseInt\<close>, from array indices and from
  adding or subtracting 1: they are integers or NaN. \<^verbatim>\<open>parseInt\<close> rounds an integer of
  more than 53 bits to a double; the model keeps it exact, which changes no comparison
  with 0 or with \<^verbatim>\<open>TOTAL_SLOTS\<close>.
\<close>

datatype jsnum = NaN | Num int

fun jsSub :: "jsnum \<Rightarrow> jsnum \<Rightarrow> jsnum" where
  "jsSub (Num a) (Num b) = Num (a - b)"
| "jsSub _ _ = NaN"

fun jsAdd :: "jsnum \<Rightarrow> jsnum \<Rightarrow> jsnum" where
  "jsAdd (Num a) (Num b) = Num (a + b)"
| "jsAdd _ _ = NaN"

text \<open>Comparisons with NaN are false.\<close>

fun jsLess :: "jsnum \<Rightarrow> jsnum \<Rightarrow> bool" where
  "jsLess (Num a) (Num b) = (a < b)"
| "jsLess _ _ = False"

fun jsLessEq :: "jsnum \<Rightarrow> jsnum \<Rightarrow> bool" where
  "jsLessEq (Num a) (Num b) = (a \<le> b)"
| "jsLessEq _ _ = False"

definition jsGreaterEq :: "jsnum \<Rightarrow> jsnum \<Rightarrow> bool" where
  "jsGreaterEq a b = jsLessEq b a"

text \<open>
  \<^verbatim>\<open>String(n)\<close> for an integer is its decimal numeral (JavaScript switches to the
  exponent form from 10^21 on, far beyond any slot number), for NaN the text NaN.
\<close>

definition digitChar :: "nat \<Rightarrow> char" where
  "digitChar d = ''0123456789'' ! d"

fun decNat :: "nat \<Rightarrow> string" where
  "decNat n = (if n < 10 then [digitChar n] else decNat (n div 10) @ [digitChar (n mod 10)])"

declare decNat.simps [simp del]

definition decInt :: "int \<Rightarrow> string" where
  "decInt i = (if i < 0 then CHR ''-'' # decNat (nat (- i)) else decNat (nat i))"

fun jsString :: "jsnum \<Rightarrow> string" where
  "jsString NaN = ''NaN''"
| "jsString (Num i) = decInt i"

text \<open>
  \<^verbatim>\<open>parseInt(str, 10)\<close>: skip leading white space, read one optional sign, then the
  longest run of decimal digits; no digit gives NaN.
\<close>

definition isDigit :: "char \<Rightarrow> bool" where
  "isDigit c = (48 \<le> (of_char c :: nat) \<and> (of_char c :: nat) \<le> 57)"

definition digitsValue :: "string \<Rightarrow> int" where
  "digitsValue ds = foldl (\<lambda>acc c. 10 * acc + (int (of_char c) - 48)) 0 ds"

definition parseInt :: "string \<Rightarrow> jsnum" where
  "parseInt str =
     (let S = trimStart str;
          sign = (if S \<noteq> [] \<and> hd S = CHR ''-'' then - 1 else 1 :: int);
          S1 = (if S \<noteq> [] \<and> (hd S = CHR ''+'' \<or> hd S = CHR ''-'') then tl S else S);
          Z = takeWhile isDigit S1
      in if Z = [] then NaN else Num (sign * digitsValue Z))"

subsection \<open>The data model\<close>

text \<open>
  A queue entry and the object stored in a slot are \<^verbatim>\<open>{plate, time, id}\<close>; a
  reservation is \<^verbatim>\<open>{plate, slot, time, id}\<close>. The field \<^verbatim>\<open>id\<close> is named \<open>ident\<close>.
\<close>

record entry =
  plate :: string
  time :: string
  ident :: string

record reservation = entry +
  slot :: jsnum

text \<open>
  \<^verbatim>\<open>parkingSlots\<close> is a JavaScript array: an object with a length and one property per
  key. Reading a key that was never written gives \<^verbatim>\<open>undefined\<close>; writing at an index at
  or beyond the length extends the array; writing at a key that is no array index
  (a negative number, NaN) sets a property and leaves the length alone.
\<close>

datatype cell = Undefined | Null | Obj entry

record jsarray =
  alength :: nat
  elems :: "jsnum \<Rightarrow> cell"

definition aget :: "jsarray \<Rightarrow> jsnum \<Rightarrow> cell" where
  "aget a k = elems a k"

definition isArrayIndex :: "jsnum \<Rightarrow> bool" where
  "isArrayIndex k = (case k of NaN \<Rightarrow> False | Num i \<Rightarrow> 0 \<le> i \<and> i < 2 ^ 32 - 1)"

definition aset :: "jsarray \<Rightarrow> jsnum \<Rightarrow> cell \<Rightarrow> jsarray" where
  "aset a k v =
     \<lparr>alength = (case k of
                   NaN \<Rightarrow> alength a
                 | Num i \<Rightarrow> if isArrayIndex k \<and> alength a \<le> nat i then nat i + 1 else alength a),
      elems = (elems a)(k := v)\<rparr>"

definition truthy :: "cell \<Rightarrow> bool" where
  "truthy c = (case c of Obj _ \<Rightarrow> True | _ \<Rightarrow> False)"

record state =
  parkingSlots :: jsarray
  arrayList :: "reservation list"
  queue :: "entry list"

definition TOTAL_SLOTS :: nat where
  "TOTAL_SLOTS = 20"

text \<open>\<^verbatim>\<open>new Array(TOTAL_SLOTS).fill(null)\<close>, and the two empty collections.\<close>

definition newSlots :: jsarray where
  "newSlots =
     \<lparr>alength = TOTAL_SLOTS,
      elems = (\<lambda>k. case k of NaN \<Rightarrow> Undefined
                   | Num i \<Rightarrow> if 0 \<le> i \<and> i < int TOTAL_SLOTS then Null else Undefined)\<rparr>"

definition initState :: state where
  "initState = \<lparr>parkingSlots = newSlots, arrayList = [], queue = []\<rparr>"

text \<open>
  What an operation reads from its environment: \<^verbatim>\<open>nowString()\<close>, \<^verbatim>\<open>Date.now()\<close> and
  \<^verbatim>\<open>Math.floor(Math.random()*999)\<close>.
\<close>

record env =
  nowString :: string
  dateNow :: int
  random999 :: nat

text \<open>\<^verbatim>\<open>'id'+Date.now()+Math.floor(Math.random()*999)\<close>\<close>

definition newId :: "env \<Rightarrow> string" where
  "newId e = ''id'' @ decInt (dateNow e) @ decNat (random999 e)"

subsection \<open>Array helpers\<close>

text \<open>\<^verbatim>\<open>xs.findIndex(P)\<close>; \<open>None\<close> stands for the result -1.\<close>

fun findIndex :: "('a \<Rightarrow> bool) \<Rightarrow> 'a list \<Rightarrow> nat option" where
  "findIndex P [] = None"
| "findIndex P (x # xs) = (if P x then Some 0 else map_option Suc (findIndex P xs))"

text \<open>\<^verbatim>\<open>xs.splice(idx, 1)\<close>\<close>

definition splice1 :: "nat \<Rightarrow> 'a list \<Rightarrow> 'a list" where
  "splice1 idx xs = take idx xs @ drop (Suc idx) xs"

text \<open>\<^verbatim>\<open>parkingSlots.findIndex(s => s === null)\<close>, a number: -1 when no cell is null.\<close>

definition findIndexNull :: "jsarray \<Rightarrow> jsnum" where
  "findIndexNull a =
     (case findIndex (\<lambda>i. elems a (Num (int i)) = Null) [0..<alength a] of
        None \<Rightarrow> Num (- 1)
      | Some i \<Rightarrow> Num (int i))"

subsection \<open>deleteReservation\<close>

datatype delete_result =
    NotFound
  | Removed
  | Promoted string jsnum

definition deleteReservation :: "string \<Rightarrow> env \<Rightarrow> state \<Rightarrow> delete_result \<times> state" where
  "deleteReservation i e s =
     (case findIndex (\<lambda>r. ident r = i) (arrayList s) of
        None \<Rightarrow> (NotFound, s)
      | Some idx \<Rightarrow>
          (let slotNum = slot (arrayList s ! idx);
               al1 = splice1 idx (arrayList s);
               ps1 = aset (parkingSlots s) (jsSub slotNum (Num 1)) Null
           in case queue s of
                [] \<Rightarrow> (Removed, s\<lparr>parkingSlots := ps1, arrayList := al1\<rparr>)
              | next # rest \<Rightarrow>
                  (let t = nowString e;
                       nid = newId e
                   in (Promoted (plate next) slotNum,
                       s\<lparr>parkingSlots :=
                            aset ps1 (jsSub slotNum (Num 1))
                              (Obj \<lparr>plate = plate next, time = t, ident = nid\<rparr>),
                         arrayList :=
                            al1 @ [\<lparr>plate = plate next, time = t, ident = nid, slot = slotNum\<rparr>],
                         queue := rest\<rparr>))))"

subsection \<open>insertReservation\<close>

datatype insert_result =
    ValidationError
  | DuplicateError
  | Queued
  | InvalidSlotError
  | SlotOccupiedError
  | QueuedSilently
  | Reserved jsnum string string

text \<open>
  The slot resolution of \<^verbatim>\<open>insertReservation\<close>: \<open>Inl\<close> is one of its two early returns,
  \<open>Inr\<close> the value of \<^verbatim>\<open>slotIndex\<close>.
\<close>

definition resolveSlot :: "string \<Rightarrow> jsarray \<Rightarrow> insert_result + jsnum" where
  "resolveSlot chosenSlot ps =
     (if chosenSlot = ''auto'' then Inr (findIndexNull ps)
      else
        (let si = jsSub (parseInt chosenSlot) (Num 1)
         in if jsLess si (Num 0) \<or> jsGreaterEq si (Num (int TOTAL_SLOTS)) then Inl InvalidSlotError
            else if truthy (aget ps si) then Inl SlotOccupiedError
            else Inr si))"

definition plateTaken :: "string \<Rightarrow> state \<Rightarrow> bool" where
  "plateTaken p s =
     (find (\<lambda>r. toLowerCase (plate r) = toLowerCase p) (arrayList s) \<noteq> None \<or>
      find (\<lambda>r. toLowerCase (plate r) = toLowerCase p) (queue s) \<noteq> None)"

definition insertReservation ::
    "string \<Rightarrow> string \<Rightarrow> env \<Rightarrow> state \<Rightarrow> insert_result \<times> state" where
  "insertReservation plate0 chosenSlot e s =
     (if plate0 = [] \<or> trim plate0 = [] then (ValidationError, s)
      else
        (let p = trim plate0
         in if plateTaken p s then (DuplicateError, s)
            else
              (let t = nowString e;
                   nid = newId e
               in if TOTAL_SLOTS \<le> length (arrayList s)
                  then (Queued, s\<lparr>queue := queue s @ [\<lparr>plate = p, time = t, ident = nid\<rparr>]\<rparr>)
                  else
                    (case resolveSlot chosenSlot (parkingSlots s) of
                       Inl err \<Rightarrow> (err, s)
                     | Inr slotIndex \<Rightarrow>
                         if slotIndex = Num (- 1)
                         then (QueuedSilently,
                               s\<lparr>queue := queue s @ [\<lparr>plate = p, time = t, ident = nid\<rparr>]\<rparr>)
                         else (Reserved (jsAdd slotIndex (Num 1)) nid t,
                               s\<lparr>parkingSlots :=
                                    aset (parkingSlots s) slotIndex
                                      (Obj \<lparr>plate = p, time = t, ident = nid\<rparr>),
                                 arrayList :=
                                    arrayList s @
                                      [\<lparr>plate = p, time = t, ident = nid,
                                        slot = jsAdd slotIndex (Num 1)\<rparr>]\<rparr>)))))"

subsection \<open>sortBySlot\<close>

text \<open>
  \<^verbatim>\<open>arrayList.sort((a,b)=>a.slot-b.slot)\<close>. ECMAScript fixes the result of
  \<^verbatim>\<open>Array.prototype.sort\<close> when the comparator is consistent: the stable sorted order.
  With a NaN slot next to two different slot numbers the comparator is not consistent,
  and the order is left to the implementation. The model follows V8 (Chrome, Node.js).
  V8 reads a comparator result of NaN as 0, returns an array of fewer than two elements
  as it is, and sorts an array of fewer than 64 elements in two steps: it takes the
  longest run at the front that is non-descending, or strictly descending and then
  reversed, and inserts the remaining elements one by one by binary search. Arrays of
  64 or more elements are merged from several runs; that path is not modelled, the
  result is \<open>None\<close> there. ReservationList never has more than \<^verbatim>\<open>TOTAL_SLOTS\<close> entries in
  a state the operations reach (lemma \<open>run_length_bound\<close>), and \<^verbatim>\<open>sortBySlot\<close> returns in
  each of them (lemma \<open>sortBySlot_returns\<close>).
\<close>

definition compareSlot :: "reservation \<Rightarrow> reservation \<Rightarrow> jsnum" where
  "compareSlot a b = jsSub (slot a) (slot b)"

text \<open>
  The comparator as the sort reads it.
\<close>

definition sortOrder :: "('a \<Rightarrow> 'a \<Rightarrow> jsnum) \<Rightarrow> 'a \<Rightarrow> 'a \<Rightarrow> int" where
  "sortOrder cmp x y = (case cmp x y of NaN \<Rightarrow> 0 | Num v \<Rightarrow> v)"

text \<open>
  \<^verbatim>\<open>CountAndMakeRun\<close>: \<open>extendRun\<close> counts how many elements after the second one
  continue the run; the run is descending when the second element compares below the
  first.
\<close>

fun extendRun :: "bool \<Rightarrow> ('a \<Rightarrow> 'a \<Rightarrow> jsnum) \<Rightarrow> 'a \<Rightarrow> 'a list \<Rightarrow> nat" where
  "extendRun desc cmp prev [] = 0"
| "extendRun desc cmp prev (c # cs) =
     (if (if desc then 0 \<le> sortOrder cmp c prev else sortOrder cmp c prev < 0) then 0
      else Suc (extendRun desc cmp c cs))"

fun countAndMakeRun :: "('a \<Rightarrow> 'a \<Rightarrow> jsnum) \<Rightarrow> 'a list \<Rightarrow> nat \<times> 'a list" where
  "countAndMakeRun cmp (x0 # x1 # rest) =
     (let desc = (sortOrder cmp x1 x0 < 0);
          n = 2 + extendRun desc cmp x1 rest
      in (n, if desc then rev (take n (x0 # x1 # rest)) @ drop n (x0 # x1 # rest)
             else x0 # x1 # rest))"
| "countAndMakeRun cmp xs = (length xs, xs)"

text \<open>
  \<^verbatim>\<open>BinaryInsertionSort\<close>: the search for the place of \<open>pivot\<close> in the elements
  before it, which the caller passes as \<open>a\<close> with \<open>right = length a\<close>, and the
  insertion there.
\<close>

function binarySearch :: "('a \<Rightarrow> 'a \<Rightarrow> jsnum) \<Rightarrow> 'a \<Rightarrow> 'a list \<Rightarrow> nat \<Rightarrow> nat \<Rightarrow> nat" where
  "binarySearch cmp pivot a left right =
     (if left < right
      then (let mid = left + (right - left) div 2
            in if sortOrder cmp pivot (a ! mid) < 0 then binarySearch cmp pivot a left mid
               else binarySearch cmp pivot a (mid + 1) right)
      else left)"
  by pat_completeness auto
termination
  by (relation "measure (\<lambda>(cmp, pivot, a, left, right). right - left)") auto

declare binarySearch.simps [simp del]

definition insertPivot :: "('a \<Rightarrow> 'a \<Rightarrow> jsnum) \<Rightarrow> 'a list \<Rightarrow> 'a \<Rightarrow> 'a list" where
  "insertPivot cmp pre pivot =
     (let left = binarySearch cmp pivot pre 0 (length pre)
      in take left pre @ pivot # drop left pre)"

definition jsSort :: "('a \<Rightarrow> 'a \<Rightarrow> jsnum) \<Rightarrow> 'a list \<Rightarrow> 'a list option" where
  "jsSort cmp xs =
     (if length xs < 2 then Some xs
      else if length xs < 64
      then (case countAndMakeRun cmp xs of
              (n, ys) \<Rightarrow> Some (foldl (insertPivot cmp) (take n ys) (drop n ys)))
      else None)"

definition sortBySlot :: "state \<Rightarrow> state option" where
  "sortBySlot s =
     (case jsSort compareSlot (arrayList s) of
        None \<Rightarrow> None
      | Some al \<Rightarrow> Some (s\<lparr>arrayList := al\<rparr>))"

subsection \<open>search\<close>

text \<open>
  What \<^verbatim>\<open>search\<close> writes to the result panel: nothing for an empty term, the
  "No reservations found" box, or one row per matching reservation.
\<close>

datatype search_view =
    Cleared
  | NoneFound string
  | Found string "reservation list"

definition matches :: "string \<Rightarrow> reservation \<Rightarrow> bool" where
  "matches term r =
     (includesJS (toLowerCase (plate r)) (toLowerCase term) \<or> jsString (slot r) = term)"

definition search :: "string \<Rightarrow> state \<Rightarrow> search_view" where
  "search term0 s =
     (let term = trim term0
      in if term = [] then Cleared
         else if length (arrayList s) = 0 then NoneFound term
         else
           (let results = filter (matches term) (arrayList s)
            in if length results = 0 then NoneFound term else Found term results))"

text \<open>The result set shown by a view.\<close>

fun results :: "search_view \<Rightarrow> reservation list" where
  "results Cleared = []"
| "results (NoneFound term) = []"
| "results (Found term rs) = rs"

subsection \<open>Sequences of operations\<close>

text \<open>
  One call of \<^verbatim>\<open>insertReservation\<close> or \<^verbatim>\<open>deleteReservation\<close>, with the environment
  it reads; \<open>run\<close> performs a sequence of calls from the state the script starts in
  when the browser storage is empty.
\<close>

datatype operation = Insert string string env | Delete string env

fun step :: "state \<Rightarrow> operation \<Rightarrow> state" where
  "step s (Insert p c e) = snd (insertReservation p c e s)"
| "step s (Delete i e) = snd (deleteReservation i e s)"

definition run :: "operation list \<Rightarrow> state" where
  "run ops = foldl step initState ops"

subsection \<open>The properties of the specification\<close>

text \<open>
  The plate \<open>q\<close> occurs, compared case-insensitively, in ReservationList or WaitQueue.
\<close>

definition occursIn :: "string \<Rightarrow> state \<Rightarrow> bool" where
  "occursIn q s =
     (\<exists>x \<in> set (map plate (arrayList s)) \<union> set (map plate (queue s)).
        toLowerCase x = toLowerCase q)"

text \<open>A plate as \<^verbatim>\<open>insertReservation\<close> stores it: not empty, no white space at either end.\<close>

definition trimmed :: "string \<Rightarrow> bool" where
  "trimmed x = (x \<noteq> [] \<and> \<not> isWhiteSpace (hd x) \<and> \<not> isWhiteSpace (last x))"

definition storedPlatesTrimmed :: "state \<Rightarrow> bool" where
  "storedPlatesTrimmed s =
     (\<forall>x \<in> set (map plate (arrayList s)) \<union> set (map plate (queue s)). trimmed x)"

text \<open>Cell \<open>k\<close> of the SlotTable is empty.\<close>

definition emptyCell :: "state \<Rightarrow> nat \<Rightarrow> bool" where
  "emptyCell s k = (k < alength (parkingSlots s) \<and> elems (parkingSlots s) (Num (int k)) = Null)"

text \<open>
  The bijection of section 3 of the specification, as two counts: every occupied cell
  \<open>i\<close> is mirrored by exactly one entry of ReservationList (slot \<open>i + 1\<close>, same plate,
  timestamp and id), and every entry of ReservationList mirrors exactly one occupied cell.
\<close>

definition mirror :: "reservation \<Rightarrow> entry" where
  "mirror r = \<lparr>plate = plate r, time = time r, ident = ident r\<rparr>"

definition occupiedCells :: "state \<Rightarrow> nat list" where
  "occupiedCells s =
     filter (\<lambda>i. truthy (aget (parkingSlots s) (Num (int i)))) [0..<alength (parkingSlots s)]"

definition cellMirrors :: "state \<Rightarrow> nat \<Rightarrow> reservation \<Rightarrow> bool" where
  "cellMirrors s i r =
     (slot r = Num (int i + 1) \<and> aget (parkingSlots s) (Num (int i)) = Obj (mirror r))"

definition slotTableBijection :: "state \<Rightarrow> bool" where
  "slotTableBijection s =
     (list_all (\<lambda>i. length (filter (cellMirrors s i) (arrayList s)) = 1) (occupiedCells s) \<and>
      list_all (\<lambda>r. length (filter (\<lambda>i. cellMirrors s i r) (occupiedCells s)) = 1) (arrayList s))"

definition specInvariant :: "state \<Rightarrow> bool" where
  "specInvariant s = (length (arrayList s) \<le> TOTAL_SLOTS \<and> slotTableBijection s)"

text \<open>
  The slot choice of an insert is \<^verbatim>\<open>"auto"\<close> or a text in which \<^verbatim>\<open>parseInt\<close> finds a
  number.
\<close>

definition numericChoice :: "operation \<Rightarrow> bool" where
  "numericChoice op =
     (case op of Insert p c e \<Rightarrow> c = ''auto'' \<or> parseInt c \<noteq> NaN | Delete i e \<Rightarrow> True)"

text \<open>The inductive form of the invariant, on the SlotTable and the ReservationList.\<close>

definition consistent :: "jsarray \<Rightarrow> reservation list \<Rightarrow> bool" where
  "consistent ps al =
     (alength ps = TOTAL_SLOTS \<and> length al \<le> TOTAL_SLOTS \<and> distinct (map slot al) \<and>
      (\<forall>r\<in>set al. \<exists>i<TOTAL_SLOTS.
          slot r = Num (int i + 1) \<and> elems ps (Num (int i)) = Obj (mirror r)) \<and>
      (\<forall>i<TOTAL_SLOTS. \<forall>ob. elems ps (Num (int i)) = Obj ob \<longrightarrow>
         (\<exists>r\<in>set al. slot r = Num (int i + 1) \<and> mirror r = ob)))"

definition consistentState :: "state \<Rightarrow> bool" where
  "consistentState s = consistent (parkingSlots s) (arrayList s)"

text \<open>The integer of a slot number, for the comparison with the library's stable sort.\<close>

definition slotInt :: "reservation \<Rightarrow> int" where
  "slotInt r = (case slot r of NaN \<Rightarrow> 0 | Num i \<Rightarrow> i)"

text \<open>
  The match of section 4.3 of the specification, in its own words. Two code units are
  the same letter when they are equal or one is an upper-case code unit (A..Z, or
  U+00C0..U+00DE without the multiplication sign) and the other is the code unit 32
  above it. A text is the decimal numeral of an integer when it has digits only, no
  leading zero, the value of the integer, and a minus sign in front for a negative one.
  A reservation matches a term when some part of its plate is, letter for letter, the
  term, or when the term is the numeral of its slot number ("NaN" for the slot NaN).
\<close>

definition upperCaseUnit :: "char \<Rightarrow> bool" where
  "upperCaseUnit c =
     ((65 \<le> (of_char c :: nat) \<and> (of_char c :: nat) \<le> 90) \<or>
      (192 \<le> (of_char c :: nat) \<and> (of_char c :: nat) \<le> 222 \<and> (of_char c :: nat) \<noteq> 215))"

definition sameLetter :: "char \<Rightarrow> char \<Rightarrow> bool" where
  "sameLetter a b =
     (a = b \<or>
      (upperCaseUnit a \<and> (of_char b :: nat) = of_char a + 32) \<or>
      (upperCaseUnit b \<and> (of_char a :: nat) = of_char b + 32))"

definition canonicalDigits :: "string \<Rightarrow> bool" where
  "canonicalDigits d = (d \<noteq> [] \<and> list_all isDigit d \<and> (d = ''0'' \<or> hd d \<noteq> CHR ''0''))"

fun slotText :: "jsnum \<Rightarrow> string \<Rightarrow> bool" where
  "slotText NaN t = (t = ''NaN'')"
| "slotText (Num n) t =
     (if n < 0 then \<exists>d. t = CHR ''-'' # d \<and> canonicalDigits d \<and> digitsValue d = - n
      else canonicalDigits t \<and> digitsValue t = n)"

definition specMatch :: "string \<Rightarrow> reservation \<Rightarrow> bool" where
  "specMatch t r =
     ((\<exists>us ws vs. plate r = us @ ws @ vs \<and> list_all2 sameLetter ws t) \<or> slotText (slot r) t)"


text \<open>
  The id of a reservation made by the code holds the clock reading of the call:
  \<^verbatim>\<open>Date.now()\<close> has thirteen digits from September 2001 to November 2286, and they
  follow the two letters of the id. \<open>clockDiffers s e\<close>: the clock reading of \<open>e\<close> has
  thirteen digits and is not the clock reading of an id in use in \<open>s\<close>.
\<close>

definition epochMillis :: "int \<Rightarrow> bool" where
  "epochMillis t = (1000000000000 \<le> t \<and> t < 10000000000000)"

definition clockPart :: "string \<Rightarrow> int" where
  "clockPart i = digitsValue (take 13 (drop 2 i))"

definition idsInUse :: "state \<Rightarrow> string list" where
  "idsInUse s = map ident (arrayList s) @ map ident (queue s)"

definition clockDiffers :: "state \<Rightarrow> env \<Rightarrow> bool" where
  "clockDiffers s e =
     (epochMillis (dateNow e) \<and> list_all (\<lambda>i. clockPart i \<noteq> dateNow e) (idsInUse s))"

text \<open>
  The environment of an operation.
\<close>

fun opEnv :: "operation \<Rightarrow> env" where
  "opEnv (Insert p c e) = e"
| "opEnv (Delete i e) = e"

subsection \<open>Example states\<close>

definition envA :: env where
  "envA = \<lparr>nowString = ''12/16/2025, 9:00:00 AM'', dateNow = 1765875600000, random999 = 417\<rparr>"

definition envB :: env where
  "envB = \<lparr>nowString = ''12/16/2025, 9:05:00 AM'', dateNow = 1765875900000, random999 = 58\<rparr>"

definition envX :: env where
  "envX = \<lparr>nowString = ''12/16/2025, 8:00:00 AM'', dateNow = 1765872000000, random999 = 12\<rparr>"

definition envY :: env where
  "envY = \<lparr>nowString = ''12/16/2025, 8:30:00 AM'', dateNow = 1765873800000, random999 = 305\<rparr>"

text \<open>
  Two cars: XYZ 789 reserved in slot 3 (environment \<open>envX\<close>), then ABC 123 reserved by
  auto-assignment in slot 1 (environment \<open>envY\<close>).
\<close>

definition carX :: reservation where
  "carX = \<lparr>plate = ''XYZ 789'', time = ''12/16/2025, 8:00:00 AM'', ident = ''id176587200000012'',
            slot = Num 3\<rparr>"

definition carA :: reservation where
  "carA = \<lparr>plate = ''ABC 123'', time = ''12/16/2025, 8:30:00 AM'', ident = ''id1765873800000305'',
            slot = Num 1\<rparr>"

definition twoCars :: state where
  "twoCars =
     \<lparr>parkingSlots = aset (aset newSlots (Num 2) (Obj (mirror carX))) (Num 0) (Obj (mirror carA)),
      arrayList = [carX, carA],
      queue = []\<rparr>"

text \<open>A full lot, car \<open>i\<close> in slot \<open>i + 1\<close>, and three cars waiting.\<close>

definition carNo :: "nat \<Rightarrow> reservation" where
  "carNo i = \<lparr>plate = ''CAR'' @ decNat i, time = ''12/16/2025, 8:00:00 AM'',
              ident = ''id'' @ decNat i, slot = Num (int i + 1)\<rparr>"

definition waiting :: "entry list" where
  "waiting =
     [\<lparr>plate = ''WAIT A'', time = ''12/16/2025, 8:40:00 AM'', ident = ''id1765874400000100''\<rparr>,
      \<lparr>plate = ''WAIT B'', time = ''12/16/2025, 8:41:00 AM'', ident = ''id1765874460000200''\<rparr>,
      \<lparr>plate = ''WAIT C'', time = ''12/16/2025, 8:42:00 AM'', ident = ''id1765874520000300''\<rparr>]"

definition fullLot :: state where
  "fullLot =
     \<lparr>parkingSlots =
        \<lparr>alength = TOTAL_SLOTS,
         elems = (\<lambda>k. case k of
                    NaN \<Rightarrow> Undefined
                  | Num j \<Rightarrow> if 0 \<le> j \<and> j < int TOTAL_SLOTS then Obj (mirror (carNo (nat j)))
                             else Undefined)\<rparr>,
      arrayList = map carNo [0..<TOTAL_SLOTS],
      queue = waiting\<rparr>"

text \<open>
  The lot filled by auto-assignment: car \<open>i\<close> is inserted with the plate \<open>carPlate i\<close>
  when the clock and the random number are those of \<open>envC i\<close>. \<open>filled n\<close> is the state
  after the first \<open>n\<close> inserts, \<open>lotC\<close> the full lot after two more inserts, which
  wait in the queue.
\<close>

definition envC :: "nat \<Rightarrow> env" where
  "envC i = \<lparr>nowString = ''12/16/2025, 8:00:00 AM'', dateNow = 1765872000000 + 60000 * int i,
             random999 = 100 + i\<rparr>"

definition carPlate :: "nat \<Rightarrow> string" where
  "carPlate i = ''CAR'' @ decNat i"

definition carC :: "nat \<Rightarrow> reservation" where
  "carC i = \<lparr>plate = carPlate i, time = nowString (envC i), ident = newId (envC i),
             slot = Num (int i + 1)\<rparr>"

definition filled :: "nat \<Rightarrow> state" where
  "filled n =
     \<lparr>parkingSlots =
        \<lparr>alength = TOTAL_SLOTS,
         elems = (\<lambda>k. case k of
                    NaN \<Rightarrow> Undefined
                  | Num j \<Rightarrow> if 0 \<le> j \<and> j < int TOTAL_SLOTS
                             then (if j < int n then Obj (mirror (carC (nat j))) else Null)
                             else Undefined)\<rparr>,
      arrayList = map carC [0..<n],
      queue = []\<rparr>"

definition fillOps :: "nat \<Rightarrow> operation list" where
  "fillOps n = map (\<lambda>i. Insert (carPlate i) ''auto'' (envC i)) [0..<n]"

definition waitA :: entry where
  "waitA = \<lparr>plate = ''WAIT A'', time = nowString envA, ident = newId envA\<rparr>"

definition waitB :: entry where
  "waitB = \<lparr>plate = ''WAIT B'', time = nowString envB, ident = newId envB\<rparr>"

definition lotC :: state where
  "lotC = (filled TOTAL_SLOTS)\<lparr>queue := [waitA, waitB]\<rparr>"

text \<open>
  Three inserts, the second with the slot choice \<^verbatim>\<open>"abc"\<close>.
\<close>

definition carN :: reservation where
  "carN = \<lparr>plate = ''JKL 456'', time = nowString envA, ident = newId envA, slot = NaN\<rparr>"

definition threeInserts :: "operation list" where
  "threeInserts =
     [Insert ''XYZ 789'' ''3'' envX, Insert ''JKL 456'' ''abc'' envA,
      Insert ''ABC 123'' ''1'' envY]"

section \<open>Properties\<close>

subsection \<open>Helper lemmas\<close>

lemma trim_Nil [simp]: "trim [] = []"
  by (simp add: trim_def)

lemma findIndex_None_iff: "findIndex P xs = None \<longleftrightarrow> (\<forall>x\<in>set xs. \<not> P x)"
  by (induction xs) auto


lemma findIndex_SomeD:
  "findIndex P xs = Some i \<Longrightarrow> i < length xs \<and> P (xs ! i) \<and> (\<forall>j<i. \<not> P (xs ! j))"
proof (induction xs arbitrary: i)
  case Nil
  then show ?case by simp
next
  case (Cons x xs)
  show ?case
  proof (cases "P x")
    case True
    with Cons.prems show ?thesis by simp
  next
    case False
    with Cons.prems obtain k where k: "findIndex P xs = Some k" "i = Suc k" by auto
    from Cons.IH [OF k(1)] False k(2) show ?thesis
      by (auto simp: less_Suc_eq_0_disj)
  qed
qed

lemma plateTaken_iff: "plateTaken q s \<longleftrightarrow> occursIn q s"
  by (auto simp: plateTaken_def occursIn_def find_None_iff)


lemma aset_in_range:
  "k < alength a \<Longrightarrow> aset a (Num (int k)) v = a\<lparr>elems := (elems a)(Num (int k) := v)\<rparr>"
  by (simp add: aset_def)

lemma resolveSlot_Inl:
  "resolveSlot c ps = Inl err \<Longrightarrow> err = InvalidSlotError \<or> err = SlotOccupiedError"
  by (auto simp: resolveSlot_def Let_def split: if_splits)

lemma insert_dup:
  "trim p \<noteq> [] \<Longrightarrow> occursIn (trim p) s \<Longrightarrow> insertReservation p c e s = (DuplicateError, s)"
  by (auto simp: insertReservation_def plateTaken_iff Let_def)

lemma findIndexNull_least:
  assumes "i < alength a" and "elems a (Num (int i)) = Null"
  shows "findIndexNull a = Num (int (LEAST k. k < alength a \<and> elems a (Num (int k)) = Null))"
proof -
  let ?P = "\<lambda>k. elems a (Num (int k)) = Null"
  have "findIndex ?P [0..<alength a] \<noteq> None"
    using assms by (auto simp: findIndex_None_iff)
  then obtain k where k: "findIndex ?P [0..<alength a] = Some k" by auto
  from findIndex_SomeD [OF k] have kn: "k < alength a" and pk: "?P k"
    and first: "\<forall>j<k. \<not> ?P j" by auto
  have "(LEAST k. k < alength a \<and> ?P k) = k"
  proof (rule Least_equality)
    show "k < alength a \<and> ?P k" using kn pk by simp
    fix y assume "y < alength a \<and> ?P y"
    with first show "k \<le> y" by (meson not_less)
  qed
  with k show ?thesis by (simp add: findIndexNull_def)
qed

subsection \<open>Stored plates are trimmed\<close>

text \<open>
  Lower-casing keeps white space white space and everything else not, so a text that
  equals a trimmed, non-empty plate case-insensitively is itself trimmed and non-empty.
\<close>

lemma isWhiteSpace_lowerChar: "isWhiteSpace (lowerChar c) = isWhiteSpace c"
proof -
  let ?n = "of_char c :: nat"
  have lt: "?n < 256" by (rule nat_of_char_less_256)
  show ?thesis
  proof (cases "(65 \<le> ?n \<and> ?n \<le> 90) \<or> (192 \<le> ?n \<and> ?n \<le> 222 \<and> ?n \<noteq> 215)")
    case True
    then have "(of_char (char_of (?n + 32)) :: nat) = ?n + 32" by auto
    with True show ?thesis
      by (auto simp: isWhiteSpace_def lowerChar_def Let_def)
  next
    case False
    then have "lowerChar c = c" by (auto simp: lowerChar_def Let_def)
    then show ?thesis by simp
  qed
qed

lemma trimmed_trim: "trim p \<noteq> [] \<Longrightarrow> trimmed (trim p)"
proof -
  assume ne: "trim p \<noteq> []"
  let ?q = "dropWhile isWhiteSpace p"
  let ?d = "dropWhile isWhiteSpace (rev ?q)"
  have t: "trim p = rev ?d" by (simp add: trim_def)
  with ne have d: "?d \<noteq> []" by simp
  have "\<not> isWhiteSpace (hd ?d)" using d by (rule hd_dropWhile)
  then have l: "\<not> isWhiteSpace (last (trim p))" using d by (simp add: t last_rev)
  have "rev ?q = takeWhile isWhiteSpace (rev ?q) @ ?d" by simp
  then have q: "?q = rev ?d @ rev (takeWhile isWhiteSpace (rev ?q))"
    by (metis rev_append rev_rev_ident)
  from d have "rev ?d \<noteq> []" by simp
  with q have "hd ?q = hd (rev ?d)" by (metis hd_append2)
  moreover from q d have "?q \<noteq> []" by (metis Nil_is_append_conv rev_is_Nil_conv)
  then have "\<not> isWhiteSpace (hd ?q)" by (rule hd_dropWhile)
  ultimately have "\<not> isWhiteSpace (hd (trim p))" by (simp add: t)
  with ne l show ?thesis by (simp add: trimmed_def)
qed

lemma trim_trimmed: "trimmed x \<Longrightarrow> trim x = x"
proof -
  assume tr: "trimmed x"
  then obtain h t where x: "x = h # t" and h: "\<not> isWhiteSpace h"
    by (cases x) (auto simp: trimmed_def)
  then have a: "dropWhile isWhiteSpace x = x" by simp
  from tr have "rev x \<noteq> []" "\<not> isWhiteSpace (hd (rev x))"
    by (simp_all add: trimmed_def hd_rev)
  then have "dropWhile isWhiteSpace (rev x) = rev x"
    by (cases "rev x") auto
  with a show ?thesis by (simp add: trim_def)
qed

lemma trimmed_same_lower:
  assumes "trimmed x" and "toLowerCase x = toLowerCase p"
  shows "trimmed p"
proof -
  from assms(1) have x: "x \<noteq> []" by (simp add: trimmed_def)
  with assms(2) have p: "p \<noteq> []" by (auto simp: toLowerCase_def)
  have "lowerChar (hd x) = lowerChar (hd p)"
    using assms(2) x p by (metis toLowerCase_def hd_map)
  then have h: "isWhiteSpace (hd p) = isWhiteSpace (hd x)"
    by (metis isWhiteSpace_lowerChar)
  have "lowerChar (last x) = lowerChar (last p)"
    using assms(2) x p by (metis toLowerCase_def last_map)
  then have l: "isWhiteSpace (last p) = isWhiteSpace (last x)"
    by (metis isWhiteSpace_lowerChar)
  from assms(1) p h l show ?thesis by (simp add: trimmed_def)
qed

lemma occursIn_stored_trimmed:
  assumes "storedPlatesTrimmed s" and "occursIn p s"
  shows "trim p = p \<and> p \<noteq> []"
proof -
  from assms(2) obtain x where x: "x \<in> set (map plate (arrayList s)) \<union> set (map plate (queue s))"
    and eq: "toLowerCase x = toLowerCase p" by (auto simp: occursIn_def)
  from assms(1) x have "trimmed x" by (simp add: storedPlatesTrimmed_def)
  then have "trimmed p" using eq by (rule trimmed_same_lower)
  then show ?thesis by (simp add: trim_trimmed trimmed_def)
qed

lemma set_splice1:
  "idx < length xs \<Longrightarrow> set (splice1 idx xs) \<subseteq> set xs"
  by (auto simp: splice1_def dest: in_set_takeD in_set_dropD)

lemma run_snoc: "run (ops @ [op]) = step (run ops) op"
  by (simp add: run_def)

lemma storedPlatesTrimmed_step: "storedPlatesTrimmed s \<Longrightarrow> storedPlatesTrimmed (step s op)"
proof (cases op)
  case (Insert p c e)
  assume s: "storedPlatesTrimmed s"
  show ?thesis
  proof (cases "trim p = []")
    case True
    with s Insert show ?thesis by (simp add: insertReservation_def)
  next
    case False
    then have "trimmed (trim p)" by (rule trimmed_trim)
    with s Insert show ?thesis
      by (auto simp: insertReservation_def Let_def storedPlatesTrimmed_def split: sum.splits)
  qed
next
  case (Delete i e)
  assume s: "storedPlatesTrimmed s"
  show ?thesis
  proof (cases "findIndex (\<lambda>r. ident r = i) (arrayList s)")
    case None
    with s Delete show ?thesis by (simp add: deleteReservation_def)
  next
    case (Some idx)
    from findIndex_SomeD [OF Some] have "idx < length (arrayList s)" by simp
    then have sub: "set (splice1 idx (arrayList s)) \<subseteq> set (arrayList s)" by (rule set_splice1)
    show ?thesis
    proof (cases "queue s")
      case Nil
      with s Delete Some sub show ?thesis
        by (auto simp: deleteReservation_def Let_def storedPlatesTrimmed_def)
    next
      case (Cons nxt rest)
      with s Delete Some sub show ?thesis
        by (auto simp: deleteReservation_def Let_def storedPlatesTrimmed_def)
    qed
  qed
qed

text \<open>
  Every state that a sequence of inserts and deletes reaches stores trimmed, non-empty
  plates only.
\<close>

lemma run_plates_trimmed: "storedPlatesTrimmed (run ops)"
proof (induction ops rule: rev_induct)
  case Nil
  show ?case by (simp add: run_def initState_def storedPlatesTrimmed_def)
next
  case (snoc op ops)
  then show ?case by (simp add: run_snoc storedPlatesTrimmed_step)
qed

subsection \<open>The SlotTable mirrors the ReservationList\<close>

lemma consistent_init: "consistent newSlots []"
  by (simp add: consistent_def newSlots_def)

lemma consistent_add:
  assumes c: "consistent ps al" and k: "k < TOTAL_SLOTS"
    and free: "\<not> truthy (elems ps (Num (int k)))" and room: "length al < TOTAL_SLOTS"
    and r: "slot r = Num (int k + 1)"
  shows "consistent (aset ps (Num (int k)) (Obj (mirror r))) (al @ [r])"
proof -
  from c have len: "alength ps = TOTAL_SLOTS" by (simp add: consistent_def)
  have upd: "aset ps (Num (int k)) (Obj (mirror r)) =
      ps\<lparr>elems := (elems ps)(Num (int k) := Obj (mirror r))\<rparr>"
    using k len by (simp add: aset_in_range)
  have fresh: "slot r' \<noteq> Num (int k + 1)" if "r' \<in> set al" for r'
  proof
    assume eq: "slot r' = Num (int k + 1)"
    from c that obtain i where "i < TOTAL_SLOTS" "slot r' = Num (int i + 1)"
      "elems ps (Num (int i)) = Obj (mirror r')" by (auto simp: consistent_def)
    with eq have "elems ps (Num (int k)) = Obj (mirror r')" by simp
    with free show False by (simp add: truthy_def)
  qed
  have d: "distinct (map slot (al @ [r]))"
    using c fresh r by (auto simp: consistent_def)
  have fwd: "\<exists>i<TOTAL_SLOTS. slot r' = Num (int i + 1) \<and>
      ((elems ps)(Num (int k) := Obj (mirror r))) (Num (int i)) = Obj (mirror r')"
    if "r' \<in> set (al @ [r])" for r'
  proof (cases "r' \<in> set al")
    case True
    with c obtain i where i: "i < TOTAL_SLOTS" "slot r' = Num (int i + 1)"
      "elems ps (Num (int i)) = Obj (mirror r')" by (auto simp: consistent_def)
    from fresh [OF True] i(2) have "i \<noteq> k" by auto
    with i show ?thesis by auto
  next
    case False
    with that have "r' = r" by simp
    with k r show ?thesis by auto
  qed
  have bwd: "\<exists>r'\<in>set (al @ [r]). slot r' = Num (int i + 1) \<and> mirror r' = ob"
    if "i < TOTAL_SLOTS" and "((elems ps)(Num (int k) := Obj (mirror r))) (Num (int i)) = Obj ob"
    for i ob
  proof (cases "i = k")
    case True
    with that r show ?thesis by simp
  next
    case False
    with that have "elems ps (Num (int i)) = Obj ob" by simp
    with c that(1) show ?thesis by (auto simp: consistent_def)
  qed
  show ?thesis
    unfolding upd consistent_def
    using len room d fwd bwd by simp
qed

lemma distinct_map_splice1:
  assumes "distinct (map f xs)" and "idx < length xs"
  shows "distinct (map f (splice1 idx xs)) \<and> f (xs ! idx) \<notin> f ` set (splice1 idx xs)
    \<and> set xs = insert (xs ! idx) (set (splice1 idx xs))"
proof -
  have xs: "xs = take idx xs @ (xs ! idx) # drop (Suc idx) xs"
    using assms(2) by (simp add: id_take_nth_drop)
  have "distinct (map f (take idx xs @ (xs ! idx) # drop (Suc idx) xs))"
    using assms(1) xs by simp
  then have a: "distinct (map f (splice1 idx xs)) \<and> f (xs ! idx) \<notin> f ` set (splice1 idx xs)"
    by (auto simp: splice1_def)
  have "set xs = set (take idx xs @ (xs ! idx) # drop (Suc idx) xs)"
    using xs by simp
  then have "set xs = insert (xs ! idx) (set (splice1 idx xs))"
    by (simp add: splice1_def)
  with a show ?thesis by simp
qed

lemma length_splice1: "idx < length xs \<Longrightarrow> length (splice1 idx xs) = length xs - 1"
  by (simp add: splice1_def)

lemma consistent_remove:
  assumes c: "consistent ps al" and idx: "idx < length al"
  shows "\<exists>k<TOTAL_SLOTS. slot (al ! idx) = Num (int k + 1) \<and>
      jsSub (slot (al ! idx)) (Num 1) = Num (int k) \<and>
      consistent (aset ps (Num (int k)) Null) (splice1 idx al) \<and>
      length (splice1 idx al) < TOTAL_SLOTS"
proof -
  let ?r = "al ! idx" and ?al = "splice1 idx al"
  from c have len: "alength ps = TOTAL_SLOTS" and d: "distinct (map slot al)"
    and al_len: "length al \<le> TOTAL_SLOTS"
    by (simp_all add: consistent_def)
  from idx have "?r \<in> set al" by simp
  with c obtain k where k: "k < TOTAL_SLOTS" "slot ?r = Num (int k + 1)"
    "elems ps (Num (int k)) = Obj (mirror ?r)" by (auto simp: consistent_def)
  from distinct_map_splice1 [OF d idx]
  have d': "distinct (map slot ?al)" and notin: "slot ?r \<notin> slot ` set ?al"
    and set_eq: "set al = insert ?r (set ?al)" by auto
  have upd: "aset ps (Num (int k)) Null = ps\<lparr>elems := (elems ps)(Num (int k) := Null)\<rparr>"
    using k(1) len by (simp add: aset_in_range)
  have fwd: "\<exists>i<TOTAL_SLOTS. slot r' = Num (int i + 1) \<and>
      ((elems ps)(Num (int k) := Null)) (Num (int i)) = Obj (mirror r')"
    if "r' \<in> set ?al" for r'
  proof -
    from that set_eq have "r' \<in> set al" by auto
    with c obtain i where i: "i < TOTAL_SLOTS" "slot r' = Num (int i + 1)"
      "elems ps (Num (int i)) = Obj (mirror r')" by (auto simp: consistent_def)
    from that notin have "slot r' \<noteq> slot ?r" by (metis image_eqI)
    with i(2) k(2) have "i \<noteq> k" by auto
    with i show ?thesis by auto
  qed
  have bwd: "\<exists>r'\<in>set ?al. slot r' = Num (int i + 1) \<and> mirror r' = ob"
    if "i < TOTAL_SLOTS" and "((elems ps)(Num (int k) := Null)) (Num (int i)) = Obj ob"
    for i ob
  proof -
    from that(2) have ik: "i \<noteq> k" and "elems ps (Num (int i)) = Obj ob"
      by (auto split: if_splits)
    with c that(1) obtain r' where r': "r' \<in> set al" "slot r' = Num (int i + 1)" "mirror r' = ob"
      unfolding consistent_def by blast
    from r'(2) k(2) ik have "r' \<noteq> ?r" by auto
    with r'(1) set_eq have "r' \<in> set ?al" by auto
    with r' show ?thesis by blast
  qed
  have "consistent (aset ps (Num (int k)) Null) ?al"
    unfolding upd consistent_def
    using len al_len d' fwd bwd idx by (simp add: length_splice1)
  moreover have "length ?al < TOTAL_SLOTS"
    using idx al_len by (simp add: length_splice1)
  moreover have "jsSub (slot ?r) (Num 1) = Num (int k)" using k(2) by simp
  ultimately show ?thesis using k(1,2) by blast
qed

lemma resolveSlot_Inr:
  assumes len: "alength ps = TOTAL_SLOTS"
    and num: "c = ''auto'' \<or> parseInt c \<noteq> NaN"
    and res: "resolveSlot c ps = Inr si" and si: "si \<noteq> Num (- 1)"
  shows "\<exists>k<TOTAL_SLOTS. si = Num (int k) \<and> \<not> truthy (elems ps (Num (int k)))"
proof (cases "c = ''auto''")
  case True
  with res have fi: "findIndexNull ps = si" by (simp add: resolveSlot_def)
  with si obtain k where k: "findIndex (\<lambda>i. elems ps (Num (int i)) = Null) [0..<alength ps] = Some k"
    and sik: "si = Num (int k)"
    by (auto simp: findIndexNull_def split: option.splits)
  from findIndex_SomeD [OF k] have "k < alength ps" "elems ps (Num (int k)) = Null" by auto
  with len sik show ?thesis by (auto simp: truthy_def)
next
  case False
  with num obtain n where n: "parseInt c = Num n" by (cases "parseInt c") auto
  from res False n have rng: "\<not> n - 1 < 0" "\<not> int TOTAL_SLOTS \<le> n - 1"
    and occ: "\<not> truthy (aget ps (Num (n - 1)))" and sin: "si = Num (n - 1)"
    by (auto simp: resolveSlot_def Let_def jsGreaterEq_def split: if_splits)
  from rng have "nat (n - 1) < TOTAL_SLOTS" and "int (nat (n - 1)) = n - 1" by auto
  with occ sin show ?thesis by (metis aget_def)
qed

lemma insert_unchanged_or_reserved:
  "(parkingSlots (snd (insertReservation p c e s)) = parkingSlots s \<and>
    arrayList (snd (insertReservation p c e s)) = arrayList s) \<or>
   (\<exists>si. resolveSlot c (parkingSlots s) = Inr si \<and> si \<noteq> Num (- 1) \<and>
      length (arrayList s) < TOTAL_SLOTS \<and>
      snd (insertReservation p c e s) =
        s\<lparr>parkingSlots :=
             aset (parkingSlots s) si (Obj \<lparr>plate = trim p, time = nowString e, ident = newId e\<rparr>),
          arrayList :=
             arrayList s @
               [\<lparr>plate = trim p, time = nowString e, ident = newId e,
                 slot = jsAdd si (Num 1)\<rparr>]\<rparr>)"
proof (cases "p = [] \<or> trim p = [] \<or> plateTaken (trim p) s \<or> TOTAL_SLOTS \<le> length (arrayList s)")
  case True
  then show ?thesis by (auto simp: insertReservation_def Let_def)
next
  case False
  show ?thesis
  proof (cases "resolveSlot c (parkingSlots s)")
    case (Inl err)
    with False show ?thesis by (simp add: insertReservation_def Let_def)
  next
    case (Inr si)
    with False show ?thesis by (cases "si = Num (- 1)") (simp_all add: insertReservation_def Let_def)
  qed
qed

lemma insert_consistent:
  assumes c: "consistentState s" and num: "c = ''auto'' \<or> parseInt c \<noteq> NaN"
  shows "consistentState (snd (insertReservation p c e s))"
proof -
  let ?t = "nowString e" and ?nid = "newId e"
  from insert_unchanged_or_reserved [of p c e s]
  consider (same) "parkingSlots (snd (insertReservation p c e s)) = parkingSlots s"
      "arrayList (snd (insertReservation p c e s)) = arrayList s"
    | (reserved) si where "resolveSlot c (parkingSlots s) = Inr si" "si \<noteq> Num (- 1)"
      "length (arrayList s) < TOTAL_SLOTS"
      "snd (insertReservation p c e s) =
        s\<lparr>parkingSlots := aset (parkingSlots s) si (Obj \<lparr>plate = trim p, time = ?t, ident = ?nid\<rparr>),
          arrayList := arrayList s @ [\<lparr>plate = trim p, time = ?t, ident = ?nid, slot = jsAdd si (Num 1)\<rparr>]\<rparr>"
    by blast
  then show ?thesis
  proof cases
    case same
    with c show ?thesis by (simp add: consistentState_def)
  next
    case reserved
    from c have len: "alength (parkingSlots s) = TOTAL_SLOTS"
      by (simp add: consistentState_def consistent_def)
    from resolveSlot_Inr [OF len num reserved(1,2)]
    obtain k where k: "k < TOTAL_SLOTS" "si = Num (int k)"
      "\<not> truthy (elems (parkingSlots s) (Num (int k)))" by auto
    let ?r = "\<lparr>plate = trim p, time = ?t, ident = ?nid, slot = Num (int k + 1)\<rparr>"
    have "consistent (aset (parkingSlots s) (Num (int k)) (Obj (mirror ?r))) (arrayList s @ [?r])"
      using c k(1,3) reserved(3) by (intro consistent_add) (simp_all add: consistentState_def)
    then show ?thesis
      by (simp add: reserved(4) k(2) consistentState_def mirror_def)
  qed
qed

lemma delete_consistent:
  assumes c: "consistentState s"
  shows "consistentState (snd (deleteReservation i e s))"
proof (cases "findIndex (\<lambda>r. ident r = i) (arrayList s)")
  case None
  with c show ?thesis by (simp add: deleteReservation_def)
next
  case (Some idx)
  from findIndex_SomeD [OF Some] have idx: "idx < length (arrayList s)" by simp
  from consistent_remove [OF c [unfolded consistentState_def] idx]
  obtain k where k: "k < TOTAL_SLOTS" "slot (arrayList s ! idx) = Num (int k + 1)"
    "jsSub (slot (arrayList s ! idx)) (Num 1) = Num (int k)"
    and c1: "consistent (aset (parkingSlots s) (Num (int k)) Null) (splice1 idx (arrayList s))"
    and room: "length (splice1 idx (arrayList s)) < TOTAL_SLOTS" by blast
  show ?thesis
  proof (cases "queue s")
    case Nil
    with Some k c1 show ?thesis
      by (simp add: deleteReservation_def Let_def consistentState_def)
  next
    case (Cons nxt rest)
    let ?r = "\<lparr>plate = plate nxt, time = nowString e, ident = newId e, slot = Num (int k + 1)\<rparr>"
    have "\<not> truthy (elems (aset (parkingSlots s) (Num (int k)) Null) (Num (int k)))"
      by (simp add: aset_def truthy_def)
    with c1 k(1) room
    have "consistent (aset (aset (parkingSlots s) (Num (int k)) Null) (Num (int k)) (Obj (mirror ?r)))
        (splice1 idx (arrayList s) @ [?r])"
      by (intro consistent_add) simp_all
    with Some Cons k show ?thesis
      by (simp add: deleteReservation_def Let_def consistentState_def mirror_def)
  qed
qed

lemma run_consistent:
  "\<forall>op\<in>set ops. numericChoice op \<Longrightarrow> consistentState (run ops)"
proof (induction ops rule: rev_induct)
  case Nil
  show ?case by (simp add: run_def initState_def consistentState_def consistent_init)
next
  case (snoc op ops)
  then have ih: "consistentState (run ops)" and nc: "numericChoice op" by simp_all
  show ?case
  proof (cases op)
    case (Insert p c e)
    with nc have "c = ''auto'' \<or> parseInt c \<noteq> NaN" by (simp add: numericChoice_def)
    with ih show ?thesis by (simp add: run_snoc Insert insert_consistent)
  next
    case (Delete i e)
    with ih show ?thesis by (simp add: run_snoc delete_consistent)
  qed
qed

lemma consistent_bijection:
  assumes "consistentState s"
  shows "specInvariant s"
proof -
  let ?ps = "parkingSlots s" and ?al = "arrayList s"
  from assms have len: "alength ?ps = TOTAL_SLOTS" and al_len: "length ?al \<le> TOTAL_SLOTS"
    and d: "distinct (map slot ?al)"
    and fwd: "\<And>r. r \<in> set ?al \<Longrightarrow> \<exists>i<TOTAL_SLOTS. slot r = Num (int i + 1) \<and>
        elems ?ps (Num (int i)) = Obj (mirror r)"
    and bwd: "\<And>i ob. i < TOTAL_SLOTS \<Longrightarrow> elems ?ps (Num (int i)) = Obj ob \<Longrightarrow>
        \<exists>r\<in>set ?al. slot r = Num (int i + 1) \<and> mirror r = ob"
    by (simp_all add: consistentState_def consistent_def)
  from d have dal: "distinct ?al" and inj: "inj_on slot (set ?al)"
    by (simp_all add: distinct_map)
  have docc: "distinct (occupiedCells s)" by (simp add: occupiedCells_def)
  have occ_iff: "i \<in> set (occupiedCells s) \<longleftrightarrow> i < TOTAL_SLOTS \<and> truthy (elems ?ps (Num (int i)))" for i
    by (auto simp: occupiedCells_def len aget_def)
  have one: "length (filter (cellMirrors s i) ?al) = 1" if "i \<in> set (occupiedCells s)" for i
  proof -
    from that occ_iff obtain ob where i: "i < TOTAL_SLOTS" and ob: "elems ?ps (Num (int i)) = Obj ob"
      by (auto simp: truthy_def split: cell.splits)
    from bwd [OF i ob] obtain r where r: "r \<in> set ?al" "slot r = Num (int i + 1)" "mirror r = ob"
      by blast
    have "{x. cellMirrors s i x} \<inter> set ?al = {r}"
    proof (intro equalityI subsetI)
      fix x assume "x \<in> {x. cellMirrors s i x} \<inter> set ?al"
      then have "x \<in> set ?al" "slot x = slot r" using r(2) by (auto simp: cellMirrors_def)
      with inj r(1) have "x = r" by (auto dest: inj_onD)
      then show "x \<in> {r}" by simp
    next
      fix x assume "x \<in> {r}"
      with r ob show "x \<in> {x. cellMirrors s i x} \<inter> set ?al"
        by (simp add: cellMirrors_def aget_def)
    qed
    with dal show ?thesis by (simp add: distinct_length_filter)
  qed
  have two: "length (filter (\<lambda>i. cellMirrors s i r) (occupiedCells s)) = 1" if "r \<in> set ?al" for r
  proof -
    from fwd [OF that] obtain k where k: "k < TOTAL_SLOTS" "slot r = Num (int k + 1)"
      "elems ?ps (Num (int k)) = Obj (mirror r)" by blast
    have "{i. cellMirrors s i r} \<inter> set (occupiedCells s) = {k}"
    proof (intro equalityI subsetI)
      fix x assume "x \<in> {i. cellMirrors s i r} \<inter> set (occupiedCells s)"
      then have "slot r = Num (int x + 1)" by (simp add: cellMirrors_def)
      with k(2) show "x \<in> {k}" by simp
    next
      fix x assume "x \<in> {k}"
      with k show "x \<in> {i. cellMirrors s i r} \<inter> set (occupiedCells s)"
        by (simp add: cellMirrors_def aget_def occ_iff truthy_def)
    qed
    with docc show ?thesis by (simp add: distinct_length_filter)
  qed
  show ?thesis
    using al_len one two by (simp add: specInvariant_def slotTableBijection_def list_all_iff)
qed

text \<open>
  When every insert of a sequence chooses \<^verbatim>\<open>"auto"\<close> or a text in which
  \<^verbatim>\<open>parseInt\<close> finds a number, every state the sequence reaches has at most
  \<^verbatim>\<open>TOTAL_SLOTS\<close> reservations and the bijection between occupied cells and
  reservations.
\<close>

lemma invariant_numeric_runs:
  "\<forall>op\<in>set ops. numericChoice op \<Longrightarrow> specInvariant (run ops)"
  by (rule consistent_bijection) (rule run_consistent)

subsection \<open>Explicit slot choices\<close>

text \<open>
  When \<^verbatim>\<open>parseInt\<close> finds the number \<open>n\<close> in an explicit slot choice, a valid plate
  that is not in the system and a lot that is not full: \<open>n\<close> outside 1..\<^verbatim>\<open>TOTAL_SLOTS\<close>
  is answered by "Invalid slot chosen", an occupied slot \<open>n\<close> by "Chosen slot is
  occupied", and the state stays as it was.
\<close>

lemma explicit_slot_checked:
  assumes "trim p \<noteq> []" and "\<not> occursIn (trim p) s"
    and "length (arrayList s) < TOTAL_SLOTS"
    and "c \<noteq> ''auto''" and "parseInt c = Num n"
  shows "(n < 1 \<or> int TOTAL_SLOTS < n \<longrightarrow> insertReservation p c e s = (InvalidSlotError, s))
    \<and> (1 \<le> n \<and> n \<le> int TOTAL_SLOTS \<and> truthy (aget (parkingSlots s) (Num (n - 1))) \<longrightarrow>
         insertReservation p c e s = (SlotOccupiedError, s))"
proof -
  have r: "resolveSlot c (parkingSlots s) =
      (if n < 1 \<or> int TOTAL_SLOTS < n then Inl InvalidSlotError
       else if truthy (aget (parkingSlots s) (Num (n - 1))) then Inl SlotOccupiedError
       else Inr (Num (n - 1)))"
    using assms(4,5) by (auto simp: resolveSlot_def Let_def jsGreaterEq_def)
  have "insertReservation p c e s =
      (case resolveSlot c (parkingSlots s) of
         Inl err \<Rightarrow> (err, s)
       | Inr slotIndex \<Rightarrow>
           if slotIndex = Num (- 1)
           then (QueuedSilently,
                 s\<lparr>queue := queue s @ [\<lparr>plate = trim p, time = nowString e, ident = newId e\<rparr>]\<rparr>)
           else (Reserved (jsAdd slotIndex (Num 1)) (newId e) (nowString e),
                 s\<lparr>parkingSlots :=
                      aset (parkingSlots s) slotIndex
                        (Obj \<lparr>plate = trim p, time = nowString e, ident = newId e\<rparr>),
                   arrayList :=
                      arrayList s @
                        [\<lparr>plate = trim p, time = nowString e, ident = newId e,
                          slot = jsAdd slotIndex (Num 1)\<rparr>]\<rparr>))"
    using assms(1-3) by (auto simp: insertReservation_def Let_def plateTaken_iff)
  then show ?thesis by (simp add: r)
qed

subsection \<open>sortBySlot and the stable sort of the library\<close>

text \<open>
  What the two steps of the sort keep when the comparator is the difference of an
  integer key: the run at the front is sorted, and every step keeps the elements and
  the order of the elements of equal key. The stable sort of the library is the only
  list with these properties.
\<close>

lemma extendRun_le: "extendRun desc cmp prev cs \<le> length cs"
  by (induction cs arbitrary: prev) auto

lemma extendRun_ascending:
  assumes "\<And>x y. x \<in> set (prev # cs) \<Longrightarrow> y \<in> set (prev # cs) \<Longrightarrow> sortOrder cmp x y = f x - f y"
  shows "sorted (map f (prev # take (extendRun False cmp prev cs) cs))"
  using assms
proof (induction cs arbitrary: prev)
  case Nil
  show ?case by simp
next
  case (Cons c cs)
  have o: "sortOrder cmp c prev = f c - f prev" by (rule Cons.prems) simp_all
  show ?case
  proof (cases "sortOrder cmp c prev < 0")
    case True
    then show ?thesis by simp
  next
    case False
    with o have le: "f prev \<le> f c" by simp
    have "sorted (map f (c # take (extendRun False cmp c cs) cs))"
      by (rule Cons.IH) (rule Cons.prems, simp_all)
    with False le show ?thesis by fastforce
  qed
qed

lemma extendRun_descending:
  assumes "\<And>x y. x \<in> set (prev # cs) \<Longrightarrow> y \<in> set (prev # cs) \<Longrightarrow> sortOrder cmp x y = f x - f y"
  shows "sorted_wrt (\<lambda>a b. f b < f a) (prev # take (extendRun True cmp prev cs) cs)"
  using assms
proof (induction cs arbitrary: prev)
  case Nil
  show ?case by simp
next
  case (Cons c cs)
  have tr: "transp (\<lambda>a b. f b < f a)" by (rule transpI) simp
  have o: "sortOrder cmp c prev = f c - f prev" by (rule Cons.prems) simp_all
  show ?case
  proof (cases "0 \<le> sortOrder cmp c prev")
    case True
    then show ?thesis by simp
  next
    case False
    with o have lt: "f c < f prev" by simp
    have "sorted_wrt (\<lambda>a b. f b < f a) (c # take (extendRun True cmp c cs) cs)"
      by (rule Cons.IH) (rule Cons.prems, simp_all)
    with False lt show ?thesis by fastforce
  qed
qed

lemma filter_rev_descending:
  "sorted_wrt (\<lambda>a b. f b < f a) xs \<Longrightarrow>
     filter (\<lambda>x. f x = k) (rev xs) = filter (\<lambda>x. f x = (k::int)) xs"
proof (induction xs)
  case Nil
  show ?case by simp
next
  case (Cons x xs)
  then have ih: "filter (\<lambda>x. f x = k) (rev xs) = filter (\<lambda>x. f x = k) xs"
    and below: "\<forall>y\<in>set xs. f y < f x" by simp_all
  show ?case
  proof (cases "f x = k")
    case True
    with below have "filter (\<lambda>x. f x = k) xs = []" by (auto simp: filter_empty_conv)
    with True ih show ?thesis by simp
  next
    case False
    with ih show ?thesis by simp
  qed
qed

lemma sorted_rev_descending:
  "sorted_wrt (\<lambda>a b. f b < (f a :: int)) xs \<Longrightarrow> sorted (map f (rev xs))"
proof -
  assume "sorted_wrt (\<lambda>a b. f b < f a) xs"
  then have "sorted_wrt (\<lambda>a b. f b \<le> f a) xs"
    by (rule sorted_wrt_mono_rel [rotated]) simp
  then have "sorted_wrt (\<lambda>a b. f a \<le> f b) (rev xs)" by (simp add: sorted_wrt_rev)
  then show ?thesis by (simp add: sorted_map)
qed

lemma countAndMakeRun_props:
  assumes ord: "\<And>x y. x \<in> set xs \<Longrightarrow> y \<in> set xs \<Longrightarrow> sortOrder cmp x y = f x - f y"
    and res: "countAndMakeRun cmp xs = (n, ys)"
  shows "n \<le> length xs \<and> length ys = length xs \<and> sorted (map f (take n ys))
    \<and> (\<forall>k. filter (\<lambda>x. f x = k) ys = filter (\<lambda>x. f x = k) xs)
    \<and> mset ys = mset xs"
proof (cases xs)
  case Nil
  with res show ?thesis by simp
next
  case (Cons x0 tl0)
  show ?thesis
  proof (cases tl0)
    case Nil
    with Cons res show ?thesis by auto
  next
    case (Cons x1 rest)
    with \<open>xs = x0 # tl0\<close> have xs: "xs = x0 # x1 # rest" by simp
    define desc where "desc = (sortOrder cmp x1 x0 < 0)"
    define m where "m = extendRun desc cmp x1 rest"
    have n: "n = 2 + m"
      and ys: "ys = (if desc then rev (take n xs) @ drop n xs else xs)"
      using res by (auto simp: xs desc_def m_def Let_def)
    have m_le: "m \<le> length rest" by (simp add: m_def extendRun_le)
    then have n_le: "n \<le> length xs" by (simp add: n xs)
    have run: "take n xs = x0 # x1 # take m rest" by (simp add: n xs)
    have o: "sortOrder cmp x1 x0 = f x1 - f x0" by (rule ord) (simp_all add: xs)
    have ord1: "sortOrder cmp x y = f x - f y"
      if "x \<in> set (x1 # rest)" "y \<in> set (x1 # rest)" for x y
      using that by (intro ord) (auto simp: xs)
    show ?thesis
    proof (cases desc)
      case False
      then have "f x0 \<le> f x1" using o by (simp add: desc_def)
      moreover have "sorted (map f (x1 # take m rest))"
        using extendRun_ascending [of x1 rest cmp f] ord1 False by (simp add: m_def)
      ultimately have "sorted (map f (take n xs))" unfolding run by fastforce
      with False ys n_le show ?thesis by simp
    next
      case True
      then have lt: "f x1 < f x0" using o by (simp add: desc_def)
      have tr: "transp (\<lambda>a b. f b < f a)" by (rule transpI) simp
      have "sorted_wrt (\<lambda>a b. f b < f a) (x1 # take m rest)"
        using extendRun_descending [of x1 rest cmp f] ord1 True by (simp add: m_def)
      with lt have d: "sorted_wrt (\<lambda>a b. f b < f a) (take n xs)"
        unfolding run by fastforce
      have ys': "ys = rev (take n xs) @ drop n xs" using True ys by simp
      have len: "length (rev (take n xs)) = n" using n_le by simp
      have tk: "take n ys = rev (take n xs)" using len by (simp add: ys')
      have "filter (\<lambda>x. f x = k) ys = filter (\<lambda>x. f x = k) xs" for k
      proof -
        have "filter (\<lambda>x. f x = k) ys =
            filter (\<lambda>x. f x = k) (take n xs) @ filter (\<lambda>x. f x = k) (drop n xs)"
          by (simp add: ys' filter_rev_descending [OF d])
        also have "\<dots> = filter (\<lambda>x. f x = k) (take n xs @ drop n xs)"
          by (simp only: filter_append)
        also have "\<dots> = filter (\<lambda>x. f x = k) xs" by (simp only: append_take_drop_id)
        finally show ?thesis .
      qed
      moreover have "mset ys = mset xs"
        by (metis append_take_drop_id mset_append mset_rev ys')
      moreover have "sorted (map f (take n ys))"
        using sorted_rev_descending [OF d] by (simp add: tk)
      moreover have "length ys = length xs" using n_le by (simp add: ys')
      ultimately show ?thesis using n_le by simp
    qed
  qed
qed

lemma binarySearch_position:
  assumes "\<And>y. y \<in> set a \<Longrightarrow> sortOrder cmp pivot y = f pivot - f y"
    and "sorted (map f a)"
    and "left \<le> right" and "right \<le> length a"
    and "\<forall>i<left. f (a ! i) \<le> f pivot"
    and "\<forall>i. right \<le> i \<and> i < length a \<longrightarrow> f pivot < f (a ! i)"
  shows "binarySearch cmp pivot a left right \<le> length a
    \<and> (\<forall>i<binarySearch cmp pivot a left right. f (a ! i) \<le> f pivot)
    \<and> (\<forall>i. binarySearch cmp pivot a left right \<le> i \<and> i < length a \<longrightarrow> f pivot < f (a ! i))"
  using assms
proof (induction cmp pivot a left right rule: binarySearch.induct)
  case (1 cmp pivot a left right)
  show ?case
  proof (cases "left < right")
    case False
    with "1.prems"(3) have eq: "left = right" by simp
    have "binarySearch cmp pivot a left right = left"
      using False by (simp add: binarySearch.simps [of cmp pivot a left right])
    with eq "1.prems" show ?thesis by simp
  next
    case True
    define mid where "mid = left + (right - left) div 2"
    from True have mid: "left \<le> mid" "mid < right" by (simp_all add: mid_def)
    with "1.prems"(4) have mlen: "mid < length a" by simp
    then have o: "sortOrder cmp pivot (a ! mid) = f pivot - f (a ! mid)"
      by (intro "1.prems"(1)) simp
    have mono: "f (a ! i) \<le> f (a ! j)" if "i \<le> j" "j < length a" for i j
      using "1.prems"(2) that by (simp add: sorted_iff_nth_mono)
    show ?thesis
    proof (cases "sortOrder cmp pivot (a ! mid) < 0")
      case lt: True
      with o have pm: "f pivot < f (a ! mid)" by simp
      have above: "\<forall>i. mid \<le> i \<and> i < length a \<longrightarrow> f pivot < f (a ! i)"
      proof (intro allI impI)
        fix i assume "mid \<le> i \<and> i < length a"
        then have "f (a ! mid) \<le> f (a ! i)" by (intro mono) simp_all
        with pm show "f pivot < f (a ! i)" by simp
      qed
      have "binarySearch cmp pivot a left mid \<le> length a
        \<and> (\<forall>i<binarySearch cmp pivot a left mid. f (a ! i) \<le> f pivot)
        \<and> (\<forall>i. binarySearch cmp pivot a left mid \<le> i \<and> i < length a \<longrightarrow> f pivot < f (a ! i))"
        using True lt mid mlen "1.prems"(1,2,5) above
        by (intro "1.IH"(1) [OF True mid_def]) simp_all
      moreover have "binarySearch cmp pivot a left right = binarySearch cmp pivot a left mid"
        using True lt by (simp add: binarySearch.simps [of cmp pivot a left right] mid_def Let_def)
      ultimately show ?thesis by simp
    next
      case ge: False
      with o have pm: "f (a ! mid) \<le> f pivot" by simp
      have below: "\<forall>i<mid + 1. f (a ! i) \<le> f pivot"
      proof (intro allI impI)
        fix i assume "i < mid + 1"
        then have "f (a ! i) \<le> f (a ! mid)" using mlen by (intro mono) simp_all
        with pm show "f (a ! i) \<le> f pivot" by simp
      qed
      have "binarySearch cmp pivot a (mid + 1) right \<le> length a
        \<and> (\<forall>i<binarySearch cmp pivot a (mid + 1) right. f (a ! i) \<le> f pivot)
        \<and> (\<forall>i. binarySearch cmp pivot a (mid + 1) right \<le> i \<and> i < length a \<longrightarrow>
              f pivot < f (a ! i))"
        using True ge mid "1.prems"(1,2,4,6) below
        by (intro "1.IH"(2) [OF True mid_def]) simp_all
      moreover have "binarySearch cmp pivot a left right = binarySearch cmp pivot a (mid + 1) right"
        using True ge by (simp add: binarySearch.simps [of cmp pivot a left right] mid_def Let_def)
      ultimately show ?thesis by simp
    qed
  qed
qed

lemma insertPivot_props:
  assumes ord: "\<And>y. y \<in> set a \<Longrightarrow> sortOrder cmp pivot y = f pivot - f y"
    and srt: "sorted (map f a)"
  shows "sorted (map f (insertPivot cmp a pivot))
    \<and> (\<forall>k. filter (\<lambda>x. f x = k) (insertPivot cmp a pivot) = filter (\<lambda>x. f x = k) (a @ [pivot]))
    \<and> mset (insertPivot cmp a pivot) = mset a + {#pivot#}"
proof -
  define p where "p = binarySearch cmp pivot a 0 (length a)"
  have pos: "p \<le> length a \<and> (\<forall>i<p. f (a ! i) \<le> f pivot)
      \<and> (\<forall>i. p \<le> i \<and> i < length a \<longrightarrow> f pivot < f (a ! i))"
    unfolding p_def using ord srt by (intro binarySearch_position) simp_all
  have ins: "insertPivot cmp a pivot = take p a @ pivot # drop p a"
    by (simp add: insertPivot_def p_def Let_def)
  have lo: "f x \<le> f pivot" if "x \<in> set (take p a)" for x
  proof -
    from that obtain i where "i < length (take p a)" "take p a ! i = x"
      by (auto simp: in_set_conv_nth)
    with pos show ?thesis by auto
  qed
  have hi: "f pivot < f y" if "y \<in> set (drop p a)" for y
  proof -
    from that obtain i where i: "i < length (drop p a)" "drop p a ! i = y"
      by (auto simp: in_set_conv_nth)
    then have "p + i < length a" "a ! (p + i) = y" using pos by auto
    moreover have "p \<le> p + i" by simp
    ultimately show ?thesis using pos by blast
  qed
  have lo': "\<forall>x\<in>set (take p a). f x \<le> f pivot" using lo by blast
  have hi': "\<forall>y\<in>set (drop p a). f pivot < f y" using hi by blast
  have hi'': "\<forall>y\<in>set (drop p a). f pivot \<le> f y" using hi by (simp add: less_imp_le)
  have cross: "\<forall>x\<in>set (take p a). \<forall>y\<in>set (drop p a). f x \<le> f y"
    using lo' hi'' by (meson order_trans)
  have "sorted (map f (take p a))" "sorted (map f (drop p a))"
    using srt by (simp_all add: sorted_map sorted_wrt_take sorted_wrt_drop)
  then have a: "sorted (map f (take p a @ pivot # drop p a))"
    using lo' hi'' cross by (simp add: sorted_append)
  have split: "filter (\<lambda>x. f x = k) a =
      filter (\<lambda>x. f x = k) (take p a) @ filter (\<lambda>x. f x = k) (drop p a)" for k
    by (metis append_take_drop_id filter_append)
  have b: "filter (\<lambda>x. f x = k) (take p a @ pivot # drop p a) = filter (\<lambda>x. f x = k) (a @ [pivot])"
    for k
  proof (cases "f pivot = k")
    case True
    have "\<forall>y\<in>set (drop p a). f y \<noteq> k" using hi' True by fastforce
    then have "filter (\<lambda>x. f x = k) (drop p a) = []"
      by (simp add: filter_empty_conv)
    then show ?thesis using True split [of k] by simp
  next
    case False
    then show ?thesis using split [of k] by simp
  qed
  have "mset a = mset (take p a) + mset (drop p a)"
    by (metis append_take_drop_id mset_append)
  then have c: "mset (take p a @ pivot # drop p a) = mset a + {#pivot#}" by simp
  show ?thesis using a b c by (simp add: ins)
qed

lemma foldl_insertPivot_props:
  assumes "\<And>x y. x \<in> set (acc @ rest) \<Longrightarrow> y \<in> set (acc @ rest) \<Longrightarrow>
      sortOrder cmp x y = f x - f y"
    and "sorted (map f acc)"
  shows "sorted (map f (foldl (insertPivot cmp) acc rest))
    \<and> (\<forall>k. filter (\<lambda>x. f x = k) (foldl (insertPivot cmp) acc rest) =
           filter (\<lambda>x. f x = k) (acc @ rest))
    \<and> mset (foldl (insertPivot cmp) acc rest) = mset (acc @ rest)"
  using assms
proof (induction rest arbitrary: acc)
  case Nil
  then show ?case by simp
next
  case (Cons pivot rest)
  have ord: "sortOrder cmp pivot y = f pivot - f y" if "y \<in> set acc" for y
    using that by (intro Cons.prems(1)) simp_all
  from insertPivot_props [of acc cmp pivot f] ord Cons.prems(2)
  have s1: "sorted (map f (insertPivot cmp acc pivot))"
    and f1: "\<And>k. filter (\<lambda>x. f x = k) (insertPivot cmp acc pivot) =
        filter (\<lambda>x. f x = k) (acc @ [pivot])"
    and m1: "mset (insertPivot cmp acc pivot) = mset acc + {#pivot#}"
    by blast+
  from m1 have set1: "set (insertPivot cmp acc pivot) = set acc \<union> {pivot}"
    by (metis mset_append mset_eq_setD set_append list.set(1) list.set(2) mset.simps(1)
        mset.simps(2))
  have ord2: "sortOrder cmp x y = f x - f y"
    if "x \<in> set (insertPivot cmp acc pivot @ rest)" "y \<in> set (insertPivot cmp acc pivot @ rest)"
    for x y
    using that set1 by (intro Cons.prems(1)) auto
  from Cons.IH [of "insertPivot cmp acc pivot"] ord2 s1
  have s2: "sorted (map f (foldl (insertPivot cmp) (insertPivot cmp acc pivot) rest))"
    and f2: "\<And>k. filter (\<lambda>x. f x = k) (foldl (insertPivot cmp) (insertPivot cmp acc pivot) rest) =
        filter (\<lambda>x. f x = k) (insertPivot cmp acc pivot @ rest)"
    and m2: "mset (foldl (insertPivot cmp) (insertPivot cmp acc pivot) rest) =
        mset (insertPivot cmp acc pivot @ rest)"
    by blast+
  show ?case using s2 f2 m2 f1 m1 by simp
qed

lemma jsSort_sort_key:
  assumes ord: "\<And>x y. x \<in> set xs \<Longrightarrow> y \<in> set xs \<Longrightarrow> sortOrder cmp x y = f x - f y"
    and len: "length xs < 64"
  shows "jsSort cmp xs = Some (sort_key f xs)"
proof (cases "length xs < 2")
  case True
  then have "xs = [] \<or> (\<exists>x. xs = [x])"
    by (cases xs) (auto simp: length_Suc_conv)
  then have "sort_key f xs = xs" by auto
  with True show ?thesis by (simp add: jsSort_def)
next
  case False
  obtain n ys where run: "countAndMakeRun cmp xs = (n, ys)" by (cases "countAndMakeRun cmp xs")
  from countAndMakeRun_props [OF ord run]
  have n: "n \<le> length xs" and srt: "sorted (map f (take n ys))"
    and fil: "\<And>k. filter (\<lambda>x. f x = k) ys = filter (\<lambda>x. f x = k) xs"
    and ms: "mset ys = mset xs" by blast+
  from ms have sets: "set ys = set xs" by (rule mset_eq_setD)
  let ?res = "foldl (insertPivot cmp) (take n ys) (drop n ys)"
  have ord2: "sortOrder cmp x y = f x - f y"
    if "x \<in> set (take n ys @ drop n ys)" "y \<in> set (take n ys @ drop n ys)" for x y
    using that sets by (intro ord) simp_all
  from foldl_insertPivot_props [of "take n ys" "drop n ys" cmp f] ord2 srt
  have s: "sorted (map f ?res)"
    and f: "\<And>k. filter (\<lambda>x. f x = k) ?res = filter (\<lambda>x. f x = k) (take n ys @ drop n ys)"
    and m: "mset ?res = mset (take n ys @ drop n ys)"
    by blast+
  have "sort_key f xs = ?res"
  proof (rule properties_for_sort_key)
    show "mset ?res = mset xs" using m ms by simp
    show "sorted (map f ?res)" by (rule s)
    fix k assume "k \<in> set ?res"
    have "filter (\<lambda>x. f x = f k) ?res = filter (\<lambda>x. f x = f k) xs"
      using f [of "f k"] fil [of "f k"] by simp
    then show "filter (\<lambda>x. f k = f x) ?res = filter (\<lambda>x. f k = f x) xs"
      by (simp add: eq_commute [of "f k"])
  qed
  with False len run show ?thesis by (simp add: jsSort_def)
qed

text \<open>
  Two lists with a NaN among the numbers, sorted by the difference: what Node.js gives
  for \<^verbatim>\<open>[3,1,NaN,2].sort((a,b)=>a-b)\<close> and \<^verbatim>\<open>[3,NaN,1].sort((a,b)=>a-b)\<close>.
\<close>

lemma jsSort_with_NaN:
  "jsSort jsSub [Num 3, Num 1, NaN, Num 2] = Some [Num 1, Num 2, Num 3, NaN]"
  "jsSort jsSub [Num 3, NaN, Num 1] = Some [Num 3, NaN, Num 1]"
  by (simp_all add: jsSort_def sortOrder_def insertPivot_def binarySearch.simps Let_def)

lemma compareSlot_numeric:
  assumes "slot x \<noteq> NaN" and "slot y \<noteq> NaN"
  shows "sortOrder compareSlot x y = slotInt x - slotInt y"
  using assms
  by (cases "slot x"; cases "slot y") (simp_all add: sortOrder_def compareSlot_def slotInt_def)

lemma sortBySlot_numeric:
  assumes "\<forall>r\<in>set (arrayList s). slot r \<noteq> NaN" and "length (arrayList s) < 64"
  shows "sortBySlot s = Some (s\<lparr>arrayList := sort_key slotInt (arrayList s)\<rparr>)"
proof -
  have "jsSort compareSlot (arrayList s) = Some (sort_key slotInt (arrayList s))"
    using assms by (intro jsSort_sort_key compareSlot_numeric) auto
  then show ?thesis by (simp add: sortBySlot_def)
qed

lemma slots_nondecreasing:
  assumes "\<forall>r\<in>set xs. slot r \<noteq> NaN" and "sorted (map slotInt xs)"
  shows "sorted_wrt jsLessEq (map slot xs)"
proof -
  have "sorted_wrt (\<lambda>a b. slotInt a \<le> slotInt b) xs"
    using assms(2) by (simp add: sorted_map)
  then have "sorted_wrt (\<lambda>a b. jsLessEq (slot a) (slot b)) xs"
  proof (rule sorted_wrt_mono_rel [rotated])
    fix a b assume "a \<in> set xs" "b \<in> set xs" "slotInt a \<le> slotInt b"
    with assms(1) show "jsLessEq (slot a) (slot b)"
      by (cases "slot a"; cases "slot b") (auto simp: slotInt_def)
  qed
  then show ?thesis by (simp add: sorted_wrt_map)
qed

lemma filter_slot_eq:
  assumes "\<forall>r\<in>set xs. slot r \<noteq> NaN"
  shows "filter (\<lambda>r. slot r = k) xs =
    (case k of NaN \<Rightarrow> [] | Num i \<Rightarrow> filter (\<lambda>r. slotInt r = i) xs)"
proof (cases k)
  case NaN
  with assms show ?thesis by (auto simp: filter_empty_conv)
next
  case (Num i)
  have "filter (\<lambda>r. slot r = Num i) xs = filter (\<lambda>r. slotInt r = i) xs"
  proof (rule filter_cong [OF refl])
    fix r assume "r \<in> set xs"
    with assms show "(slot r = Num i) = (slotInt r = i)"
      by (cases "slot r") (auto simp: slotInt_def)
  qed
  with Num show ?thesis by simp
qed

text \<open>
  On a ReservationList of fewer than 64 slot numbers \<^verbatim>\<open>sortBySlot\<close> gives the stable
  sort: the slot numbers are non-decreasing, the reservations of each slot number keep
  their order, the list holds the same reservations, and a second \<^verbatim>\<open>sortBySlot\<close>
  changes nothing. Every state reached by operations whose slot choices are numbers or
  \<^verbatim>\<open>auto\<close> has such a list.
\<close>

lemma sortBySlot_numeric_sorted:
  assumes num: "\<forall>r\<in>set (arrayList s). slot r \<noteq> NaN" and len: "length (arrayList s) < 64"
  shows "sortBySlot s = Some (s\<lparr>arrayList := sort_key slotInt (arrayList s)\<rparr>)
    \<and> sorted_wrt jsLessEq (map slot (sort_key slotInt (arrayList s)))
    \<and> (\<forall>k. filter (\<lambda>r. slot r = k) (sort_key slotInt (arrayList s)) =
             filter (\<lambda>r. slot r = k) (arrayList s))
    \<and> mset (sort_key slotInt (arrayList s)) = mset (arrayList s)
    \<and> sortBySlot (s\<lparr>arrayList := sort_key slotInt (arrayList s)\<rparr>) =
        Some (s\<lparr>arrayList := sort_key slotInt (arrayList s)\<rparr>)"
proof -
  let ?xs = "arrayList s"
  let ?s' = "s\<lparr>arrayList := sort_key slotInt ?xs\<rparr>"
  have num': "\<forall>r\<in>set (sort_key slotInt ?xs). slot r \<noteq> NaN"
    using num by simp
  have a: "sorted_wrt jsLessEq (map slot (sort_key slotInt ?xs))"
    using num' by (intro slots_nondecreasing) simp_all
  have b: "filter (\<lambda>r. slot r = k) (sort_key slotInt ?xs) = filter (\<lambda>r. slot r = k) ?xs" for k
    by (simp add: filter_slot_eq [OF num'] filter_slot_eq [OF num] sort_key_stable
        split: jsnum.splits)
  have "sortBySlot ?s' = Some (?s'\<lparr>arrayList := sort_key slotInt (arrayList ?s')\<rparr>)"
    using num' len by (intro sortBySlot_numeric) simp_all
  moreover have "sort_key slotInt (sort_key slotInt ?xs) = sort_key slotInt ?xs"
    by (rule sort_key_id_if_sorted) simp
  ultimately have c: "sortBySlot ?s' = Some ?s'" by simp
  from sortBySlot_numeric [OF num len] a b c show ?thesis by simp
qed

lemma sortBySlot_numeric_runs:
  assumes "\<forall>op\<in>set ops. numericChoice op"
  shows "sortBySlot (run ops) =
    Some ((run ops)\<lparr>arrayList := sort_key slotInt (arrayList (run ops))\<rparr>)"
proof -
  from assms have c: "consistent (parkingSlots (run ops)) (arrayList (run ops))"
    using run_consistent [of ops] by (simp add: consistentState_def)
  then have "length (arrayList (run ops)) \<le> TOTAL_SLOTS"
    by (simp add: consistent_def)
  then have len: "length (arrayList (run ops)) < 64" by (simp add: TOTAL_SLOTS_def)
  have num: "\<forall>r\<in>set (arrayList (run ops)). slot r \<noteq> NaN"
  proof
    fix r assume "r \<in> set (arrayList (run ops))"
    with c obtain i where "slot r = Num (int i + 1)"
      unfolding consistent_def by blast
    then show "slot r \<noteq> NaN" by simp
  qed
  from num len show ?thesis by (rule sortBySlot_numeric)
qed

text \<open>
  An insert into a ReservationList of \<^verbatim>\<open>TOTAL_SLOTS\<close> entries queues, and a delete
  appends at most what it removed: the list never gets longer than \<^verbatim>\<open>TOTAL_SLOTS\<close>,
  and the sort is always the one of the short arrays.
\<close>

lemma length_step:
  "length (arrayList s) \<le> TOTAL_SLOTS \<Longrightarrow> length (arrayList (step s op)) \<le> TOTAL_SLOTS"
proof (cases op)
  case (Insert p c e)
  assume "length (arrayList s) \<le> TOTAL_SLOTS"
  with Insert show ?thesis
    by (auto simp: insertReservation_def Let_def split: sum.splits)
next
  case (Delete i e)
  assume le: "length (arrayList s) \<le> TOTAL_SLOTS"
  show ?thesis
  proof (cases "findIndex (\<lambda>r. ident r = i) (arrayList s)")
    case None
    with le Delete show ?thesis by (simp add: deleteReservation_def)
  next
    case (Some idx)
    then have "idx < length (arrayList s)" by (auto dest: findIndex_SomeD)
    then have "length (splice1 idx (arrayList s)) = length (arrayList s) - 1"
      and "0 < length (arrayList s)"
      by (auto simp: length_splice1)
    with le Some Delete show ?thesis
      by (cases "queue s") (simp_all add: deleteReservation_def Let_def)
  qed
qed

lemma run_length_bound: "length (arrayList (run ops)) \<le> TOTAL_SLOTS"
proof (induction ops rule: rev_induct)
  case Nil
  show ?case by (simp add: run_def initState_def)
next
  case (snoc op ops)
  then show ?case by (simp add: run_snoc length_step)
qed

lemma jsSort_returns: "length xs < 64 \<Longrightarrow> \<exists>ys. jsSort cmp xs = Some ys"
  by (simp add: jsSort_def split: prod.splits)

lemma sortBySlot_returns: "\<exists>s'. sortBySlot (run ops) = Some s'"
proof -
  have "length (arrayList (run ops)) < 64"
    using run_length_bound [of ops] by (simp add: TOTAL_SLOTS_def)
  then obtain ys where "jsSort compareSlot (arrayList (run ops)) = Some ys"
    using jsSort_returns by blast
  then show ?thesis by (simp add: sortBySlot_def)
qed

subsection \<open>Substrings\<close>

lemma startsWith_iff: "startsWith hay needle \<longleftrightarrow> (\<exists>vs. hay = needle @ vs)"
  by (induction hay needle rule: startsWith.induct) auto

lemma includesJS_iff: "includesJS hay needle \<longleftrightarrow> (\<exists>us vs. hay = us @ needle @ vs)"
proof (induction hay)
  case Nil
  show ?case by (auto simp: startsWith_iff)
next
  case (Cons h hay)
  show ?case
  proof
    assume "includesJS (h # hay) needle"
    then consider "startsWith (h # hay) needle" | "includesJS hay needle" by auto
    then show "\<exists>us vs. h # hay = us @ needle @ vs"
    proof cases
      case 1
      then obtain vs where "h # hay = needle @ vs" by (auto simp: startsWith_iff)
      then have "h # hay = [] @ needle @ vs" by simp
      then show ?thesis by blast
    next
      case 2
      with Cons.IH obtain us vs where "hay = us @ needle @ vs" by auto
      then have "h # hay = (h # us) @ needle @ vs" by simp
      then show ?thesis by blast
    qed
  next
    assume "\<exists>us vs. h # hay = us @ needle @ vs"
    then obtain us vs where eq: "h # hay = us @ needle @ vs" by auto
    show "includesJS (h # hay) needle"
    proof (cases us)
      case Nil
      with eq have "startsWith (h # hay) needle" by (auto simp: startsWith_iff)
      then show ?thesis by simp
    next
      case (Cons u us')
      with eq have "hay = us' @ needle @ vs" by simp
      with Cons.IH have "includesJS hay needle" by blast
      then show ?thesis by simp
    qed
  qed
qed

subsection \<open>Letters and numerals\<close>

text \<open>
  \<^verbatim>\<open>toLowerCase\<close> identifies two texts exactly when they are the same letter for
  letter, \<^verbatim>\<open>String\<close> of a slot is the only numeral of it, and so the match of the
  code is the match of the specification.
\<close>

lemma lowerChar_upper:
  "upperCaseUnit c \<Longrightarrow> lowerChar c = char_of (of_char c + 32 :: nat)"
  by (auto simp: lowerChar_def upperCaseUnit_def Let_def)

lemma lowerChar_other: "\<not> upperCaseUnit c \<Longrightarrow> lowerChar c = c"
  by (auto simp: lowerChar_def upperCaseUnit_def Let_def)

lemma of_char_lowerChar:
  "(of_char (lowerChar c) :: nat) = (if upperCaseUnit c then of_char c + 32 else of_char c)"
proof (cases "upperCaseUnit c")
  case True
  then have "(of_char c :: nat) + 32 < 256" by (auto simp: upperCaseUnit_def)
  with True show ?thesis by (simp add: lowerChar_upper)
next
  case False
  then show ?thesis by (simp add: lowerChar_other)
qed

lemma upper_plus_32_not_upper:
  "upperCaseUnit a \<Longrightarrow> (of_char b :: nat) = of_char a + 32 \<Longrightarrow> \<not> upperCaseUnit b"
  by (auto simp: upperCaseUnit_def)

lemma lowerChar_eq_iff: "lowerChar a = lowerChar b \<longleftrightarrow> sameLetter a b"
proof -
  have "lowerChar a = lowerChar b \<longleftrightarrow>
      (of_char (lowerChar a) :: nat) = of_char (lowerChar b)" by simp
  also have "\<dots> \<longleftrightarrow> sameLetter a b"
  proof (cases "upperCaseUnit a"; cases "upperCaseUnit b")
    assume "upperCaseUnit a" "upperCaseUnit b"
    then show ?thesis
      by (auto simp: of_char_lowerChar sameLetter_def dest: upper_plus_32_not_upper)
  next
    assume "upperCaseUnit a" "\<not> upperCaseUnit b"
    then show ?thesis
      by (auto simp: of_char_lowerChar sameLetter_def)
  next
    assume "\<not> upperCaseUnit a" "upperCaseUnit b"
    then show ?thesis
      by (auto simp: of_char_lowerChar sameLetter_def)
  next
    assume "\<not> upperCaseUnit a" "\<not> upperCaseUnit b"
    then show ?thesis
      by (auto simp: of_char_lowerChar sameLetter_def)
  qed
  finally show ?thesis .
qed

lemma toLowerCase_eq_iff: "toLowerCase xs = toLowerCase ys \<longleftrightarrow> list_all2 sameLetter xs ys"
proof (induction xs arbitrary: ys)
  case Nil
  show ?case by (auto simp: toLowerCase_def)
next
  case (Cons x xs)
  then show ?case by (cases ys) (auto simp: toLowerCase_def lowerChar_eq_iff)
qed

lemma lower_substring_iff:
  "(\<exists>us vs. toLowerCase p = us @ toLowerCase t @ vs) \<longleftrightarrow>
   (\<exists>us ws vs. p = us @ ws @ vs \<and> list_all2 sameLetter ws t)"
proof
  assume "\<exists>us vs. toLowerCase p = us @ toLowerCase t @ vs"
  then obtain us vs where "map lowerChar p = us @ map lowerChar t @ vs"
    by (auto simp: toLowerCase_def)
  then obtain p1 p23 where p: "p = p1 @ p23" and "map lowerChar t @ vs = map lowerChar p23"
    by (auto simp: map_eq_append_conv)
  then obtain p2 p3 where p23: "p23 = p2 @ p3" and eq: "map lowerChar p2 = map lowerChar t"
    by (auto simp: append_eq_map_conv)
  from eq have "list_all2 sameLetter p2 t"
    by (simp add: toLowerCase_eq_iff [unfolded toLowerCase_def])
  with p p23 show "\<exists>us ws vs. p = us @ ws @ vs \<and> list_all2 sameLetter ws t" by blast
next
  assume "\<exists>us ws vs. p = us @ ws @ vs \<and> list_all2 sameLetter ws t"
  then obtain us ws vs where p: "p = us @ ws @ vs" and "list_all2 sameLetter ws t" by blast
  then have "toLowerCase ws = toLowerCase t" by (simp add: toLowerCase_eq_iff)
  with p have "toLowerCase p = toLowerCase us @ toLowerCase t @ toLowerCase vs"
    by (simp add: toLowerCase_def)
  then show "\<exists>us vs. toLowerCase p = us @ toLowerCase t @ vs" by blast
qed

lemma of_char_digitChar: "n < 10 \<Longrightarrow> (of_char (digitChar n) :: nat) = 48 + n"
proof -
  assume "n < 10"
  then consider "n = 0" | "n = 1" | "n = 2" | "n = 3" | "n = 4" | "n = 5" | "n = 6" | "n = 7"
    | "n = 8" | "n = 9" by atomize_elim arith
  then show ?thesis by cases (simp_all add: digitChar_def)
qed

lemma isDigit_digitChar: "n < 10 \<Longrightarrow> isDigit (digitChar n)"
  by (simp add: isDigit_def of_char_digitChar)

lemma digitChar_of_digit:
  assumes "isDigit c"
  shows "digitChar (of_char c - 48) = c"
proof -
  from assms have "(of_char c :: nat) - 48 < 10" by (auto simp: isDigit_def)
  then have "(of_char (digitChar (of_char c - 48)) :: nat) = 48 + (of_char c - 48)"
    by (rule of_char_digitChar)
  also have "\<dots> = of_char c" using assms by (simp add: isDigit_def)
  finally show ?thesis by simp
qed

lemma digitsValue_snoc:
  "digitsValue (ds @ [c]) = 10 * digitsValue ds + (int (of_char c) - 48)"
  by (simp add: digitsValue_def)

lemma decNat_digits: "decNat n \<noteq> [] \<and> list_all isDigit (decNat n)"
proof (induction n rule: decNat.induct)
  case (1 n)
  show ?case
  proof (cases "n < 10")
    case True
    then show ?thesis by (simp add: decNat.simps [of n] isDigit_digitChar)
  next
    case False
    with "1" show ?thesis by (simp add: decNat.simps [of n] isDigit_digitChar)
  qed
qed

lemma digitsValue_decNat: "digitsValue (decNat n) = int n"
proof (induction n rule: decNat.induct)
  case (1 n)
  show ?case
  proof (cases "n < 10")
    case True
    then show ?thesis
      by (simp add: decNat.simps [of n] digitsValue_def of_char_digitChar)
  next
    case False
    with "1" have "digitsValue (decNat (n div 10)) = int (n div 10)" by simp
    moreover have "10 * int (n div 10) + int (n mod 10) = int n" by presburger
    ultimately show ?thesis using False
      by (simp add: decNat.simps [of n] digitsValue_snoc of_char_digitChar)
  qed
qed

lemma digitsValue_nonneg: "list_all isDigit ds \<Longrightarrow> 0 \<le> digitsValue ds"
proof (induction ds rule: rev_induct)
  case Nil
  show ?case by (simp add: digitsValue_def)
next
  case (snoc c ds)
  then have "0 \<le> digitsValue ds" and "isDigit c" by simp_all
  then show ?case by (simp add: digitsValue_snoc isDigit_def)
qed

lemma digit_not_zero:
  assumes "isDigit c" and "c \<noteq> CHR ''0''"
  shows "48 < (of_char c :: nat)"
proof -
  have "(of_char c :: nat) \<noteq> 48"
  proof
    assume "(of_char c :: nat) = 48"
    then have "(of_char c :: nat) = of_char (CHR ''0'')" by simp
    then have "c = CHR ''0''" by (simp only: of_char_eq_iff)
    with assms(2) show False by simp
  qed
  with assms(1) show ?thesis by (simp add: isDigit_def)
qed

lemma digitsValue_pos:
  "ds \<noteq> [] \<Longrightarrow> list_all isDigit ds \<Longrightarrow> hd ds \<noteq> CHR ''0'' \<Longrightarrow> 0 < digitsValue ds"
proof (induction ds rule: rev_induct)
  case Nil
  then show ?case by simp
next
  case (snoc c ds)
  show ?case
  proof (cases "ds = []")
    case True
    with snoc.prems have "isDigit c" and "c \<noteq> CHR ''0''" by simp_all
    then have "48 < (of_char c :: nat)" by (rule digit_not_zero)
    with True show ?thesis by (simp add: digitsValue_def)
  next
    case False
    with snoc have "0 < digitsValue ds" by simp
    moreover from snoc.prems have "isDigit c" by simp
    ultimately show ?thesis by (simp add: digitsValue_snoc isDigit_def)
  qed
qed

lemma decNat_leading_zero: "hd (decNat n) = CHR ''0'' \<Longrightarrow> decNat n = ''0''"
proof (induction n rule: decNat.induct)
  case (1 n)
  show ?case
  proof (cases "n < 10")
    case True
    with "1.prems" have "digitChar n = CHR ''0''" by (simp add: decNat.simps [of n])
    then have "(of_char (digitChar n) :: nat) = 48" by simp
    with True have "n = 0" by (simp add: of_char_digitChar)
    then show ?thesis by (simp add: decNat.simps [of 0] digitChar_def)
  next
    case False
    have ne: "decNat (n div 10) \<noteq> []" using decNat_digits by blast
    with False "1.prems" have "hd (decNat (n div 10)) = CHR ''0''"
      by (simp add: decNat.simps [of n])
    with False "1.IH" have "decNat (n div 10) = ''0''" by simp
    then have "digitsValue (decNat (n div 10)) = 0" by (simp add: digitsValue_def)
    then have "n div 10 = 0" by (simp add: digitsValue_decNat)
    with False show ?thesis by simp
  qed
qed

lemma canonical_decNat: "canonicalDigits (decNat n)"
  using decNat_digits [of n] decNat_leading_zero [of n] by (auto simp: canonicalDigits_def)

lemma canonical_unique:
  "canonicalDigits d \<Longrightarrow> digitsValue d = int n \<Longrightarrow> d = decNat n"
proof (induction d arbitrary: n rule: rev_induct)
  case Nil
  then show ?case by (simp add: canonicalDigits_def)
next
  case (snoc c ds)
  from snoc.prems(1) have dig: "isDigit c" and all: "list_all isDigit ds"
    by (simp_all add: canonicalDigits_def)
  let ?v = "(of_char c :: nat) - 48"
  from dig have v: "?v < 10" and vc: "int (of_char c) - 48 = int ?v"
    by (auto simp: isDigit_def)
  from snoc.prems(2) have val: "10 * digitsValue ds + int ?v = int n"
    by (simp add: digitsValue_snoc vc)
  show ?case
  proof (cases "ds = []")
    case True
    with val have "n = ?v" by (simp add: digitsValue_def)
    moreover from v have "decNat ?v = [digitChar ?v]" by (simp add: decNat.simps [of ?v])
    ultimately show ?thesis using True dig by (simp add: digitChar_of_digit)
  next
    case False
    have "hd ds \<noteq> CHR ''0''"
    proof
      assume "hd ds = CHR ''0''"
      with False have "hd (ds @ [c]) = CHR ''0''" by simp
      with snoc.prems(1) have "ds @ [c] = ''0''" by (auto simp: canonicalDigits_def)
      with False show False by (cases ds) simp_all
    qed
    with False all have canon: "canonicalDigits ds" and pos: "0 < digitsValue ds"
      by (simp_all add: canonicalDigits_def digitsValue_pos)
    define m where "m = nat (digitsValue ds)"
    with pos have m: "digitsValue ds = int m" and m1: "1 \<le> m" by simp_all
    from val m have n: "n = 10 * m + ?v" by linarith
    with v m1 have "\<not> n < 10" "n div 10 = m" "n mod 10 = ?v" by simp_all
    moreover from snoc.IH [OF canon m] have "ds = decNat m" .
    ultimately show ?thesis using dig by (simp add: decNat.simps [of n] digitChar_of_digit)
  qed
qed

lemma decNat_iff: "decNat n = d \<longleftrightarrow> canonicalDigits d \<and> digitsValue d = int n"
  using canonical_decNat digitsValue_decNat canonical_unique by blast

lemma jsString_iff: "jsString k = t \<longleftrightarrow> slotText k t"
proof (cases k)
  case NaN
  then show ?thesis by auto
next
  case (Num n)
  show ?thesis
  proof (cases "n < 0")
    case True
    then have neg: "int (nat (- n)) = - n" by simp
    have "CHR ''-'' # decNat (nat (- n)) = t \<longleftrightarrow>
        (\<exists>d. t = CHR ''-'' # d \<and> canonicalDigits d \<and> digitsValue d = - n)"
      using decNat_iff [of "nat (- n)"] neg by auto
    with True Num show ?thesis by (simp add: decInt_def)
  next
    case False
    then have pos: "int (nat n) = n" by simp
    have "decNat (nat n) = t \<longleftrightarrow> canonicalDigits t \<and> digitsValue t = n"
      using decNat_iff [of "nat n" t] pos by simp
    with False Num show ?thesis by (simp add: decInt_def)
  qed
qed

lemma matches_specMatch: "matches t r = specMatch t r"
  by (simp add: matches_def specMatch_def includesJS_iff lower_substring_iff jsString_iff)

lemma trim_decompose:
  "\<exists>pre post. str = pre @ trim str @ post \<and> list_all isWhiteSpace pre \<and> list_all isWhiteSpace post"
proof -
  let ?q = "dropWhile isWhiteSpace str"
  let ?d = "dropWhile isWhiteSpace (rev ?q)"
  let ?w = "takeWhile isWhiteSpace (rev ?q)"
  have "rev ?q = ?w @ ?d" by simp
  then have q: "?q = rev ?d @ rev ?w" by (metis rev_append rev_rev_ident)
  have "str = takeWhile isWhiteSpace str @ ?q" by simp
  with q have "str = takeWhile isWhiteSpace str @ trim str @ rev ?w"
    by (simp add: trim_def)
  moreover have "list_all isWhiteSpace (takeWhile isWhiteSpace str)"
    by (simp add: list_all_iff) (meson set_takeWhileD)
  moreover have "list_all isWhiteSpace (rev ?w)"
    by (simp add: list_all_iff) (meson set_takeWhileD)
  ultimately show ?thesis by blast
qed

text \<open>
  The filled lot: the plates of the cars differ, each insert takes the lowest empty
  cell, and the lot after \<open>n\<close> inserts is \<open>filled n\<close>.
\<close>

lemma lowerChar_digit: "isDigit c \<Longrightarrow> lowerChar c = c"
  by (auto simp: lowerChar_def isDigit_def Let_def)

lemma digit_not_space: "isDigit c \<Longrightarrow> \<not> isWhiteSpace c"
  by (auto simp: isDigit_def isWhiteSpace_def)

lemma toLowerCase_decNat: "toLowerCase (decNat n) = decNat n"
proof -
  have "list_all isDigit (decNat n)" using decNat_digits by blast
  then have "map lowerChar (decNat n) = map (\<lambda>c. c) (decNat n)"
    by (intro map_cong) (auto simp: list_all_iff lowerChar_digit)
  then show ?thesis by (simp add: toLowerCase_def)
qed

lemma decNat_inj: "decNat i = decNat j \<Longrightarrow> i = j"
  by (metis digitsValue_decNat of_nat_eq_iff)

lemma car_plate_inj:
  "toLowerCase (carPlate i) = toLowerCase (carPlate j) \<Longrightarrow> i = j"
proof -
  assume "toLowerCase (carPlate i) = toLowerCase (carPlate j)"
  then have "toLowerCase (decNat i) = toLowerCase (decNat j)"
    by (simp add: toLowerCase_def carPlate_def)
  then show ?thesis by (simp add: toLowerCase_decNat decNat_inj)
qed

lemma car_plate_trimmed: "trim (carPlate n) = carPlate n"
proof (rule trim_trimmed)
  have ne: "decNat n \<noteq> []" and dig: "list_all isDigit (decNat n)"
    using decNat_digits by blast+
  then have "isDigit (last (decNat n))" by (simp add: list_all_iff)
  then have "\<not> isWhiteSpace (last (decNat n))" by (rule digit_not_space)
  with ne show "trimmed (carPlate n)"
    by (simp add: trimmed_def isWhiteSpace_def carPlate_def)
qed

lemma filled_not_taken: "\<not> plateTaken (carPlate n) (filled n)"
proof -
  have "toLowerCase (plate (carC i)) \<noteq> toLowerCase (carPlate n)" if "i < n" for i
    using that car_plate_inj [of i n] by (auto simp: carC_def)
  then show ?thesis
    by (auto simp: plateTaken_def filled_def find_None_iff)
qed

lemma filled_findIndexNull:
  assumes "n < TOTAL_SLOTS"
  shows "findIndexNull (parkingSlots (filled n)) = Num (int n)"
proof -
  let ?a = "parkingSlots (filled n)"
  have len: "n < alength ?a" and nul: "elems ?a (Num (int n)) = Null"
    using assms by (simp_all add: filled_def)
  have "(LEAST k. k < alength ?a \<and> elems ?a (Num (int k)) = Null) = n"
  proof (rule Least_equality)
    show "n < alength ?a \<and> elems ?a (Num (int n)) = Null" using len nul by simp
    fix y assume "y < alength ?a \<and> elems ?a (Num (int y)) = Null"
    then show "n \<le> y" by (cases "y < n") (auto simp: filled_def)
  qed
  with findIndexNull_least [OF len nul] show ?thesis by simp
qed

lemma insert_into_filled:
  assumes "n < TOTAL_SLOTS"
  shows "snd (insertReservation (carPlate n) ''auto'' (envC n) (filled n)) = filled (Suc n)"
proof -
  have ne: "carPlate n \<noteq> []" by (simp add: carPlate_def)
  have len: "\<not> TOTAL_SLOTS \<le> length (arrayList (filled n))"
    using assms by (simp add: filled_def)
  have r: "resolveSlot ''auto'' (parkingSlots (filled n)) = Inr (Num (int n))"
    using assms by (simp add: resolveSlot_def filled_findIndexNull)
  have car: "\<lparr>plate = carPlate n, time = nowString (envC n), ident = newId (envC n),
      slot = Num (int n + 1)\<rparr> = carC n" by (simp add: carC_def)
  have ent: "\<lparr>plate = carPlate n, time = nowString (envC n), ident = newId (envC n)\<rparr> =
      mirror (carC n)" by (simp add: carC_def mirror_def)
  have i: "snd (insertReservation (carPlate n) ''auto'' (envC n) (filled n)) =
      (filled n)\<lparr>parkingSlots := aset (parkingSlots (filled n)) (Num (int n)) (Obj (mirror (carC n))),
        arrayList := arrayList (filled n) @ [carC n]\<rparr>"
    using filled_not_taken [of n] len
    by (simp add: insertReservation_def Let_def car_plate_trimmed ne r car ent)
  have ps: "aset (parkingSlots (filled n)) (Num (int n)) (Obj (mirror (carC n))) =
      parkingSlots (filled (Suc n))"
    using assms by (auto simp: aset_def filled_def isArrayIndex_def fun_eq_iff split: jsnum.splits)
  show ?thesis by (simp add: i ps) (simp add: filled_def)
qed

lemma fillOps_Suc:
  "fillOps (Suc n) = fillOps n @ [Insert (carPlate n) ''auto'' (envC n)]"
  by (simp add: fillOps_def)

lemma run_fillOps: "n \<le> TOTAL_SLOTS \<Longrightarrow> run (fillOps n) = filled n"
proof (induction n)
  case 0
  show ?case
    by (auto simp: fillOps_def run_def filled_def initState_def newSlots_def fun_eq_iff
        split: jsnum.splits)
next
  case (Suc n)
  then have "run (fillOps n) = filled n" and "n < TOTAL_SLOTS" by simp_all
  then show ?case by (simp add: fillOps_Suc run_snoc insert_into_filled)
qed

subsection \<open>Ids and the clock\<close>


lemma length_decNat:
  "0 < k \<Longrightarrow> 10 ^ (k - 1) \<le> n \<Longrightarrow> n < 10 ^ k \<Longrightarrow> length (decNat n) = k"
proof (induction k arbitrary: n)
  case 0
  then show ?case by simp
next
  case (Suc k)
  show ?case
  proof (cases "k = 0")
    case True
    with Suc.prems have "n < 10" by simp
    then have "decNat n = [digitChar n]" by (simp add: decNat.simps)
    with True show ?thesis by simp
  next
    case False
    then obtain j where k: "k = Suc j" by (cases k) auto
    from Suc.prems k have lo: "10 * 10 ^ j \<le> n" and hi: "n < 10 * 10 ^ k" by simp_all
    from lo have "10 \<le> n" by (metis le_trans mult.right_neutral mult_le_mono2 one_le_numeral one_le_power)
    then have d: "decNat n = decNat (n div 10) @ [digitChar (n mod 10)]"
      by (subst decNat.simps) simp
    from lo have "10 ^ (k - 1) \<le> n div 10" by (simp add: k) 
    moreover from hi have "n div 10 < 10 ^ k" by (simp add: less_mult_imp_div_less mult.commute)
    ultimately have "length (decNat (n div 10)) = k"
      using False by (intro Suc.IH) simp_all
    with d show ?thesis by simp
  qed
qed

lemma length_decNat_millis:
  "epochMillis t \<Longrightarrow> length (decNat (nat t)) = 13"
proof -
  assume "epochMillis t"
  then have "10 ^ (13 - 1) \<le> nat t" "nat t < 10 ^ 13"
    by (auto simp: epochMillis_def)
  then show ?thesis by (intro length_decNat) simp_all
qed

lemma clockPart_newId: "epochMillis (dateNow e) \<Longrightarrow> clockPart (newId e) = dateNow e"
proof -
  assume h: "epochMillis (dateNow e)"
  then have nn: "0 \<le> dateNow e" by (simp add: epochMillis_def)
  then have "newId e = ''id'' @ decNat (nat (dateNow e)) @ decNat (random999 e)"
    by (simp add: newId_def decInt_def)
  then have "take 13 (drop 2 (newId e)) = decNat (nat (dateNow e))"
    using length_decNat_millis [OF h] by simp
  then show ?thesis using nn by (simp add: clockPart_def digitsValue_decNat)
qed


lemma set_splice1_subset: "set (splice1 idx xs) \<subseteq> set xs"
  by (auto simp: splice1_def dest: in_set_takeD in_set_dropD)

lemma ids_insert:
  "set (idsInUse (snd (insertReservation p c e s))) \<subseteq> insert (newId e) (set (idsInUse s))"
  by (auto simp: insertReservation_def Let_def idsInUse_def split: sum.splits)

lemma ids_delete:
  "set (idsInUse (snd (deleteReservation i e s))) \<subseteq> insert (newId e) (set (idsInUse s))"
proof (cases "findIndex (\<lambda>r. ident r = i) (arrayList s)")
  case None
  then show ?thesis by (auto simp: deleteReservation_def)
next
  case (Some idx)
  have sp: "set (splice1 idx (arrayList s)) \<subseteq> set (arrayList s)" by (rule set_splice1_subset)
  show ?thesis
  proof (cases "queue s")
    case Nil
    with Some sp show ?thesis
      by (auto simp: deleteReservation_def Let_def idsInUse_def)
  next
    case (Cons a rest)
    with Some sp show ?thesis
      by (auto simp: deleteReservation_def Let_def idsInUse_def)
  qed
qed

lemma ids_step: "set (idsInUse (step s op)) \<subseteq> insert (newId (opEnv op)) (set (idsInUse s))"
  by (cases op) (simp_all add: ids_insert ids_delete)

lemma run_ids: "set (idsInUse (run ops)) \<subseteq> (\<lambda>op. newId (opEnv op)) ` set ops"
proof (induction ops rule: rev_induct)
  case Nil
  show ?case by (simp add: run_def initState_def idsInUse_def)
next
  case (snoc op ops)
  from ids_step [of "run ops" op] snoc show ?case
    by (auto simp: run_snoc)
qed

lemma run_clockDiffers:
  assumes "epochMillis (dateNow e)"
    and "\<forall>op\<in>set ops. epochMillis (dateNow (opEnv op)) \<and> dateNow (opEnv op) \<noteq> dateNow e"
  shows "clockDiffers (run ops) e"
proof -
  have "clockPart i \<noteq> dateNow e" if "i \<in> set (idsInUse (run ops))" for i
  proof -
    from that run_ids obtain op where "op \<in> set ops" and "i = newId (opEnv op)" by blast
    with assms(2) show ?thesis by (simp add: clockPart_newId)
  qed
  with assms(1) show ?thesis by (simp add: clockDiffers_def list_all_iff)
qed

subsection \<open>Evaluation of the examples\<close>

lemmas example_defs = twoCars_def carX_def carA_def envA_def envB_def

lemma trim_examples:
  "trim ''  abc 123 '' = ''abc 123''" "trim ''NEW 777'' = ''NEW 777''" "trim ''   '' = []"
  "trim '' 3 '' = ''3''"
  by (simp_all add: trim_def isWhiteSpace_def)

lemma twoCars_plates_trimmed: "storedPlatesTrimmed twoCars"
  by (simp add: storedPlatesTrimmed_def trimmed_def isWhiteSpace_def example_defs)

lemma twoCars_occurs: "occursIn ''abc 123'' twoCars"
  by (simp add: occursIn_def toLowerCase_def lowerChar_def char_of_eq_iff example_defs)

lemma twoCars_new_plate: "\<not> occursIn ''NEW 777'' twoCars"
  by (simp add: occursIn_def toLowerCase_def lowerChar_def char_of_eq_iff example_defs)

lemma twoCars_length: "length (arrayList twoCars) = 2"
  by (simp add: twoCars_def)

lemma twoCars_cells:
  "elems (parkingSlots twoCars) (Num 0) = Obj (mirror carA)"
  "elems (parkingSlots twoCars) (Num 1) = Null"
  "alength (parkingSlots twoCars) = 20"
  by (simp_all add: twoCars_def aset_def newSlots_def TOTAL_SLOTS_def isArrayIndex_def)

lemma twoCars_least: "(LEAST k. emptyCell twoCars k) = 1"
proof (rule Least_equality)
  show "emptyCell twoCars 1" using twoCars_cells by (simp add: emptyCell_def)
next
  fix y assume "emptyCell twoCars y"
  then have "y \<noteq> 0" using twoCars_cells(1) by (cases "y = 0") (simp_all add: emptyCell_def)
  then show "1 \<le> y" by simp
qed

lemma fullLot_head: "arrayList fullLot = carNo 0 # map carNo [1..<TOTAL_SLOTS]"
  by (simp add: fullLot_def TOTAL_SLOTS_def upt_conv_Cons)

lemma carNo_0: "carNo 0 = \<lparr>plate = ''CAR0'', time = ''12/16/2025, 8:00:00 AM'', ident = ''id0'', slot = Num 1\<rparr>"
  by (simp add: carNo_def decNat.simps digitChar_def)

lemma fullLot_queue: "queue fullLot = waiting"
  by (simp add: fullLot_def)

lemma fullLot_find: "findIndex (\<lambda>r. ident r = ''id0'') (arrayList fullLot) = Some 0"
  by (simp add: fullLot_head carNo_0)

lemma fullLot_new_plate: "\<not> occursIn ''NEW 777'' fullLot"
  by (auto simp: occursIn_def toLowerCase_def lowerChar_def fullLot_def carNo_def waiting_def)

lemma newId_envX: "newId envX = ''id176587200000012''"
  by (simp add: newId_def envX_def decInt_def decNat.simps digitChar_def)

lemma newId_envY: "newId envY = ''id1765873800000305''"
  by (simp add: newId_def envY_def decInt_def decNat.simps digitChar_def)

lemma parseInt_3: "parseInt ''3'' = Num 3"
  by (simp add: parseInt_def trimStart_def isWhiteSpace_def isDigit_def digitsValue_def)

lemma step1:
  "snd (insertReservation ''XYZ 789'' ''3'' envX initState) =
     \<lparr>parkingSlots = aset newSlots (Num 2) (Obj (mirror carX)), arrayList = [carX], queue = []\<rparr>"
proof -
  have t: "trim ''XYZ 789'' = ''XYZ 789''" by (simp add: trim_def isWhiteSpace_def)
  have r: "resolveSlot ''3'' newSlots = Inr (Num 2)"
    by (simp add: resolveSlot_def parseInt_3 jsGreaterEq_def aget_def newSlots_def truthy_def
        TOTAL_SLOTS_def)
  show ?thesis
    by (simp add: insertReservation_def Let_def t plateTaken_def initState_def r TOTAL_SLOTS_def
        newId_envX mirror_def carX_def) (simp add: envX_def)
qed

lemma step2:
  "snd (insertReservation '' ABC 123'' ''auto'' envY
      \<lparr>parkingSlots = aset newSlots (Num 2) (Obj (mirror carX)), arrayList = [carX], queue = []\<rparr>) =
     twoCars"
proof -
  have t: "trim '' ABC 123'' = ''ABC 123''" by (simp add: trim_def isWhiteSpace_def)
  have c0: "elems (aset newSlots (Num 2) (Obj (mirror carX))) (Num 0) = Null"
    and l: "0 < alength (aset newSlots (Num 2) (Obj (mirror carX)))"
    by (simp_all add: aset_def newSlots_def TOTAL_SLOTS_def isArrayIndex_def)
  have "findIndexNull (aset newSlots (Num 2) (Obj (mirror carX))) =
      Num (int (LEAST k. k < alength (aset newSlots (Num 2) (Obj (mirror carX))) \<and>
        elems (aset newSlots (Num 2) (Obj (mirror carX))) (Num (int k)) = Null))"
    using l c0 by (intro findIndexNull_least [of 0]) simp_all
  moreover have "(LEAST k. k < alength (aset newSlots (Num 2) (Obj (mirror carX))) \<and>
        elems (aset newSlots (Num 2) (Obj (mirror carX))) (Num (int k)) = Null) = 0"
    using l c0 by (intro Least_equality) simp_all
  ultimately have f: "findIndexNull (aset newSlots (Num 2) (Obj (mirror carX))) = Num 0" by simp
  have d: "\<not> plateTaken ''ABC 123'' \<lparr>parkingSlots = aset newSlots (Num 2) (Obj (mirror carX)), arrayList = [carX], queue = []\<rparr>"
    by (simp add: plateTaken_def toLowerCase_def lowerChar_def char_of_eq_iff carX_def)
  have i: "snd (insertReservation '' ABC 123'' ''auto'' envY
      \<lparr>parkingSlots = aset newSlots (Num 2) (Obj (mirror carX)), arrayList = [carX], queue = []\<rparr>) =
     \<lparr>parkingSlots =
        aset (aset newSlots (Num 2) (Obj (mirror carX))) (Num 0)
          (Obj \<lparr>plate = ''ABC 123'', time = nowString envY, ident = newId envY\<rparr>),
      arrayList =
        [carX, \<lparr>plate = ''ABC 123'', time = nowString envY, ident = newId envY, slot = Num 1\<rparr>],
      queue = []\<rparr>"
    using d by (simp add: insertReservation_def Let_def t f resolveSlot_def TOTAL_SLOTS_def)
  have a: "carA = \<lparr>plate = ''ABC 123'', time = nowString envY, ident = newId envY, slot = Num 1\<rparr>"
    by (simp add: carA_def newId_envY) (simp add: envY_def)
  have m: "mirror \<lparr>plate = ''ABC 123'', time = nowString envY, ident = newId envY, slot = Num 1\<rparr> =
      \<lparr>plate = ''ABC 123'', time = nowString envY, ident = newId envY\<rparr>"
    by (simp add: mirror_def)
  show ?thesis by (simp add: i twoCars_def a m)
qed

text \<open>The example state is the result of two inserts.\<close>

lemma twoCars_reachable:
  "run [Insert ''XYZ 789'' ''3'' envX, Insert '' ABC 123'' ''auto'' envY] = twoCars"
  by (simp add: run_def step1 step2)

lemma parseInt_abc: "parseInt ''abc'' = NaN"
  by (simp add: parseInt_def trimStart_def isWhiteSpace_def isDigit_def)

lemma resolveSlot_abc: "resolveSlot ''abc'' newSlots = Inr NaN"
  by (simp add: resolveSlot_def parseInt_abc jsGreaterEq_def aget_def newSlots_def truthy_def)

lemma insert_abc:
  "insertReservation ''ABC 123'' ''abc'' envA initState =
     (Reserved NaN (newId envA) (nowString envA),
      initState\<lparr>parkingSlots :=
           aset newSlots NaN
             (Obj \<lparr>plate = ''ABC 123'', time = nowString envA, ident = newId envA\<rparr>),
         arrayList :=
           [\<lparr>plate = ''ABC 123'', time = nowString envA, ident = newId envA, slot = NaN\<rparr>]\<rparr>)"
proof -
  have t: "trim ''ABC 123'' = ''ABC 123''" by (simp add: trim_def isWhiteSpace_def)
  show ?thesis
    by (simp add: insertReservation_def Let_def t plateTaken_def initState_def resolveSlot_abc
        TOTAL_SLOTS_def)
qed

lemma matches_examples:
  "matches ''3'' carX" "matches ''3'' carA"
  "matches ''xYz'' carX" "\<not> matches ''xYz'' carA"
  "\<not> matches ''1'' carX" "matches ''1'' carA"
  "\<not> matches ''20'' carX" "\<not> matches ''20'' carA"
  by (simp_all add: matches_def toLowerCase_def lowerChar_def char_of_eq_iff decInt_def
      decNat.simps digitChar_def carX_def carA_def)

text \<open>
  The full lot with two cars waiting is the result of twenty-two inserts; the delete
  of the car in slot 1.
\<close>

lemma lotC_reachable:
  "run (fillOps TOTAL_SLOTS @ [Insert ''WAIT A'' ''auto'' envA, Insert ''WAIT B'' ''auto'' envB]) =
     lotC"
proof -
  have t: "trim ''WAIT A'' = ''WAIT A''" "trim ''WAIT B'' = ''WAIT B''"
    by (simp_all add: trim_def isWhiteSpace_def)
  have full: "length (arrayList (filled TOTAL_SLOTS)) = TOTAL_SLOTS" by (simp add: filled_def)
  have lw: "toLowerCase ''WAIT A'' = ''wait a''" "toLowerCase ''WAIT B'' = ''wait b''"
    by (simp_all add: toLowerCase_def lowerChar_def char_of_eq_iff)
  have lc: "toLowerCase (carPlate i) = ''car'' @ decNat i" for i
    using toLowerCase_decNat [of i]
    by (simp add: toLowerCase_def lowerChar_def char_of_eq_iff carPlate_def)
  have a: "\<not> plateTaken ''WAIT A'' (filled TOTAL_SLOTS)"
    by (auto simp: plateTaken_def filled_def find_None_iff carC_def lw lc)
  have s1: "snd (insertReservation ''WAIT A'' ''auto'' envA (filled TOTAL_SLOTS)) =
      (filled TOTAL_SLOTS)\<lparr>queue := [waitA]\<rparr>"
    using a full by (simp add: insertReservation_def Let_def t waitA_def) (simp add: filled_def)
  have b: "\<not> plateTaken ''WAIT B'' ((filled TOTAL_SLOTS)\<lparr>queue := [waitA]\<rparr>)"
    by (auto simp: plateTaken_def filled_def find_None_iff carC_def lw lc waitA_def)
  have s2: "snd (insertReservation ''WAIT B'' ''auto'' envB ((filled TOTAL_SLOTS)\<lparr>queue := [waitA]\<rparr>)) =
      lotC"
    using b full by (simp add: insertReservation_def Let_def t waitB_def lotC_def)
  have "run (fillOps TOTAL_SLOTS) = filled TOTAL_SLOTS" by (simp add: run_fillOps)
  then show ?thesis by (simp add: run_def s1 s2)
qed





text \<open>
  The inserts with the slot choices 3, abc and 1.
\<close>

lemma step_abc:
  "snd (insertReservation ''JKL 456'' ''abc'' envA
      \<lparr>parkingSlots = aset newSlots (Num 2) (Obj (mirror carX)), arrayList = [carX], queue = []\<rparr>) =
     \<lparr>parkingSlots = aset (aset newSlots (Num 2) (Obj (mirror carX))) NaN (Obj (mirror carN)),
      arrayList = [carX, carN], queue = []\<rparr>"
proof -
  have t: "trim ''JKL 456'' = ''JKL 456''" by (simp add: trim_def isWhiteSpace_def)
  have r: "resolveSlot ''abc'' (aset newSlots (Num 2) (Obj (mirror carX))) = Inr NaN"
    by (simp add: resolveSlot_def parseInt_abc jsGreaterEq_def aget_def aset_def newSlots_def
        truthy_def)
  have d: "\<not> plateTaken ''JKL 456''
      \<lparr>parkingSlots = aset newSlots (Num 2) (Obj (mirror carX)), arrayList = [carX], queue = []\<rparr>"
    by (simp add: plateTaken_def toLowerCase_def lowerChar_def char_of_eq_iff carX_def)
  have m: "mirror \<lparr>plate = ''JKL 456'', time = nowString envA, ident = newId envA, slot = NaN\<rparr> =
      \<lparr>plate = ''JKL 456'', time = nowString envA, ident = newId envA\<rparr>"
    by (simp add: mirror_def)
  show ?thesis
    using d by (simp add: insertReservation_def Let_def t r TOTAL_SLOTS_def carN_def m)
qed

lemma parseInt_1: "parseInt ''1'' = Num 1"
  by (simp add: parseInt_def trimStart_def isWhiteSpace_def isDigit_def digitsValue_def)

lemma step_1:
  "snd (insertReservation ''ABC 123'' ''1'' envY
      \<lparr>parkingSlots = aset (aset newSlots (Num 2) (Obj (mirror carX))) NaN (Obj (mirror carN)),
       arrayList = [carX, carN], queue = []\<rparr>) =
     \<lparr>parkingSlots =
        aset (aset (aset newSlots (Num 2) (Obj (mirror carX))) NaN (Obj (mirror carN))) (Num 0)
          (Obj (mirror carA)),
      arrayList = [carX, carN, carA], queue = []\<rparr>"
proof -
  have t: "trim ''ABC 123'' = ''ABC 123''" by (simp add: trim_def isWhiteSpace_def)
  have r: "resolveSlot ''1''
      (aset (aset newSlots (Num 2) (Obj (mirror carX))) NaN (Obj (mirror carN))) = Inr (Num 0)"
    by (simp add: resolveSlot_def parseInt_1 jsGreaterEq_def aget_def aset_def newSlots_def
        truthy_def TOTAL_SLOTS_def)
  have d: "\<not> plateTaken ''ABC 123''
      \<lparr>parkingSlots = aset (aset newSlots (Num 2) (Obj (mirror carX))) NaN (Obj (mirror carN)),
       arrayList = [carX, carN], queue = []\<rparr>"
    by (simp add: plateTaken_def toLowerCase_def lowerChar_def char_of_eq_iff carX_def carN_def)
  have a: "carA = \<lparr>plate = ''ABC 123'', time = nowString envY, ident = newId envY, slot = Num 1\<rparr>"
    by (simp add: carA_def newId_envY) (simp add: envY_def)
  have m: "mirror \<lparr>plate = ''ABC 123'', time = nowString envY, ident = newId envY, slot = Num 1\<rparr> =
      \<lparr>plate = ''ABC 123'', time = nowString envY, ident = newId envY\<rparr>"
    by (simp add: mirror_def)
  show ?thesis
    using d by (simp add: insertReservation_def Let_def t r TOTAL_SLOTS_def a m)
qed

lemma threeInserts_run:
  "run threeInserts =
     \<lparr>parkingSlots =
        aset (aset (aset newSlots (Num 2) (Obj (mirror carX))) NaN (Obj (mirror carN))) (Num 0)
          (Obj (mirror carA)),
      arrayList = [carX, carN, carA], queue = []\<rparr>"
  by (simp add: run_def threeInserts_def step1 step_abc step_1)

lemma threeInserts_sort: "jsSort compareSlot [carX, carN, carA] = Some [carX, carN, carA]"
  by (simp add: jsSort_def compareSlot_def sortOrder_def carX_def carN_def carA_def)

lemma twoCars_sort: "sortBySlot twoCars = Some (twoCars\<lparr>arrayList := [carA, carX]\<rparr>)"
  by (simp add: sortBySlot_def jsSort_def compareSlot_def sortOrder_def twoCars_def carX_def
      carA_def)




section \<open>The claims\<close>

subsection \<open>C1: the invariant over sequences of inserts and deletes\<close>

text \<open>
  C1 says that after every operation of every sequence of inserts and deletes from the
  empty state, ReservationList has at most \<^verbatim>\<open>TOTAL_SLOTS\<close> entries and occupied cells
  and reservations are in bijection. The sequence of the single call
  \<^verbatim>\<open>insertReservation("ABC 123", "abc")\<close> ends in a state without the bijection: the
  reservation has the slot NaN and no cell of the table is occupied. (For sequences whose
  slot choices are numeric the invariant holds, lemma \<open>invariant_numeric_runs\<close>.)
\<close>

theorem invariant_broken_by_nonnumeric_choice:
  "\<not> specInvariant (run [Insert ''ABC 123'' ''abc'' envA])"
proof -
  have al: "arrayList (run [Insert ''ABC 123'' ''abc'' envA]) =
      [\<lparr>plate = ''ABC 123'', time = nowString envA, ident = newId envA, slot = NaN\<rparr>]"
    by (simp add: run_def insert_abc)
  show ?thesis
    by (simp add: specInvariant_def slotTableBijection_def al cellMirrors_def)
qed

subsection \<open>C2: a delete promotes the head of the queue\<close>




subsection \<open>C3: a duplicate plate is rejected\<close>

text \<open>
  C3: a plate that occurs, compared case-insensitively, in ReservationList or WaitQueue
  is answered by "Plate already in system", and the state stays as it was, whatever the
  slot choice. The code compares the trimmed plate, after its check that the trimmed
  plate is not empty; the theorem covers that reading for every state, and the reading
  that compares the plate as given for every state whose stored plates are trimmed and
  not empty (every reachable state, lemma \<open>run_plates_trimmed\<close>).
\<close>

theorem insert_duplicate_rejected:
  assumes "(trim p \<noteq> [] \<and> occursIn (trim p) s) \<or> (storedPlatesTrimmed s \<and> occursIn p s)"
  shows "insertReservation p c e s = (DuplicateError, s)"
proof -
  from assms have "trim p \<noteq> [] \<and> occursIn (trim p) s"
    using occursIn_stored_trimmed [of s p] by auto
  then show ?thesis by (simp add: insert_dup)
qed

theorem insert_duplicate_rejected_witness:
  "insertReservation ''  abc 123 '' ''auto'' envA twoCars = (DuplicateError, twoCars)
   \<and> insertReservation ''abc 123'' ''7'' envA twoCars = (DuplicateError, twoCars)"
proof -
  have a: "(trim ''  abc 123 '' \<noteq> [] \<and> occursIn (trim ''  abc 123 '') twoCars) \<or>
      (storedPlatesTrimmed twoCars \<and> occursIn ''  abc 123 '' twoCars)"
    using twoCars_occurs by (simp add: trim_examples)
  have b: "(trim ''abc 123'' \<noteq> [] \<and> occursIn (trim ''abc 123'') twoCars) \<or>
      (storedPlatesTrimmed twoCars \<and> occursIn ''abc 123'' twoCars)"
    using twoCars_occurs twoCars_plates_trimmed by simp
  from insert_duplicate_rejected [OF a] insert_duplicate_rejected [OF b] show ?thesis by simp
qed

subsection \<open>C4: an insert into a full lot joins the queue\<close>

text \<open>
  C4: with \<^verbatim>\<open>TOTAL_SLOTS\<close> reservations, a valid plate that is not in the system is
  appended to the back of the queue, the answer is "Parking is full", and neither the
  SlotTable nor the ReservationList changes.
\<close>

theorem insert_full_queues:
  assumes "length (arrayList s) = TOTAL_SLOTS" and "trim p \<noteq> []" and "\<not> occursIn (trim p) s"
  shows "fst (insertReservation p c e s) = Queued
    \<and> queue (snd (insertReservation p c e s)) =
        queue s @ [\<lparr>plate = trim p, time = nowString e, ident = newId e\<rparr>]
    \<and> parkingSlots (snd (insertReservation p c e s)) = parkingSlots s
    \<and> arrayList (snd (insertReservation p c e s)) = arrayList s"
  using assms by (auto simp: insertReservation_def plateTaken_iff Let_def)

theorem insert_full_queues_witness:
  "fst (insertReservation ''NEW 777'' ''auto'' envA fullLot) = Queued
   \<and> queue (snd (insertReservation ''NEW 777'' ''auto'' envA fullLot)) =
       waiting @ [\<lparr>plate = ''NEW 777'', time = nowString envA, ident = newId envA\<rparr>]
   \<and> parkingSlots (snd (insertReservation ''NEW 777'' ''auto'' envA fullLot)) = parkingSlots fullLot
   \<and> arrayList (snd (insertReservation ''NEW 777'' ''auto'' envA fullLot)) = arrayList fullLot"
proof -
  have a: "length (arrayList fullLot) = TOTAL_SLOTS" by (simp add: fullLot_def)
  have b: "trim ''NEW 777'' \<noteq> []" by (simp add: trim_examples)
  have c: "\<not> occursIn (trim ''NEW 777'') fullLot"
    using fullLot_new_plate by (simp add: trim_examples)
  note q = fullLot_queue
  from insert_full_queues [OF a b c, of "''auto''" envA] show ?thesis
    by (simp add: trim_examples q)
qed

subsection \<open>C5: auto-assignment takes the lowest empty cell\<close>

text \<open>
  C5: with fewer than \<^verbatim>\<open>TOTAL_SLOTS\<close> reservations and some empty cell, an insert
  with the choice \<^verbatim>\<open>"auto"\<close> of a valid plate that is not in the system reserves slot
  \<open>k + 1\<close>, where \<open>k\<close> is the least index of an empty cell, and writes cell \<open>k\<close>.
\<close>

theorem insert_auto_lowest:
  assumes "trim p \<noteq> []" and "\<not> occursIn (trim p) s"
    and "length (arrayList s) < TOTAL_SLOTS"
    and "emptyCell s i"
  shows "insertReservation p ''auto'' e s =
     (let k = (LEAST k. emptyCell s k)
      in (Reserved (Num (int k + 1)) (newId e) (nowString e),
          s\<lparr>parkingSlots :=
               aset (parkingSlots s) (Num (int k))
                 (Obj \<lparr>plate = trim p, time = nowString e, ident = newId e\<rparr>),
            arrayList :=
               arrayList s @
                 [\<lparr>plate = trim p, time = nowString e, ident = newId e,
                   slot = Num (int k + 1)\<rparr>]\<rparr>))"
proof -
  have "findIndexNull (parkingSlots s) = Num (int (LEAST k. emptyCell s k))"
    using assms(4) findIndexNull_least [of i "parkingSlots s"]
    by (simp add: emptyCell_def)
  then have "resolveSlot ''auto'' (parkingSlots s) = Inr (Num (int (LEAST k. emptyCell s k)))"
    by (simp add: resolveSlot_def)
  then show ?thesis
    using assms(1-3) by (auto simp: insertReservation_def plateTaken_iff Let_def)
qed

theorem insert_auto_lowest_witness:
  "fst (insertReservation ''NEW 777'' ''auto'' envA twoCars) =
     Reserved (Num 2) (newId envA) (nowString envA)"
proof -
  have a: "trim ''NEW 777'' \<noteq> []" by (simp add: trim_examples)
  have b: "\<not> occursIn (trim ''NEW 777'') twoCars"
    using twoCars_new_plate by (simp add: trim_examples)
  have c: "length (arrayList twoCars) < TOTAL_SLOTS"
    by (simp add: twoCars_length TOTAL_SLOTS_def)
  have d: "emptyCell twoCars 1" using twoCars_cells by (simp add: emptyCell_def)
  from insert_auto_lowest [OF a b c d, of envA] show ?thesis
    by (simp add: twoCars_least)
qed

subsection \<open>C6: explicit slot choices are validated\<close>

text \<open>
  C6 says that an explicit slot choice that is not a slot number within
  1..\<^verbatim>\<open>TOTAL_SLOTS\<close> is answered by InvalidSlotError without a mutation. For the choice
  \<^verbatim>\<open>"abc"\<close> \<^verbatim>\<open>parseInt\<close> gives NaN, both range comparisons are false, and the
  insert into the empty state succeeds: it appends a reservation with the slot NaN and
  occupies no cell. (For a choice in which \<^verbatim>\<open>parseInt\<close> finds a number the claim
  holds, lemma \<open>explicit_slot_checked\<close>.)
\<close>

theorem insert_nonnumeric_choice_reserved:
  "parseInt ''abc'' = NaN
   \<and> fst (insertReservation ''ABC 123'' ''abc'' envA initState) =
       Reserved NaN (newId envA) (nowString envA)
   \<and> arrayList (snd (insertReservation ''ABC 123'' ''abc'' envA initState)) =
       [\<lparr>plate = ''ABC 123'', time = nowString envA, ident = newId envA, slot = NaN\<rparr>]
   \<and> occupiedCells (snd (insertReservation ''ABC 123'' ''abc'' envA initState)) = []"
proof -
  have o: "occupiedCells (initState\<lparr>parkingSlots :=
            aset newSlots NaN
              (Obj \<lparr>plate = ''ABC 123'', time = nowString envA, ident = newId envA\<rparr>),
          arrayList :=
            [\<lparr>plate = ''ABC 123'', time = nowString envA, ident = newId envA, slot = NaN\<rparr>]\<rparr>) = []"
    by (simp add: occupiedCells_def aget_def aset_def newSlots_def truthy_def filter_empty_conv)
  show ?thesis by (simp add: parseInt_abc insert_abc o)
qed

subsection \<open>C7: deleting an absent id changes nothing\<close>

text \<open>
  C7: when no reservation has the id, \<^verbatim>\<open>deleteReservation\<close> returns at once, with
  the state it was given.
\<close>

theorem delete_absent_noop:
  "\<forall>r \<in> set (arrayList s). ident r \<noteq> i \<Longrightarrow> deleteReservation i e s = (NotFound, s)"
proof -
  assume "\<forall>r \<in> set (arrayList s). ident r \<noteq> i"
  then have "findIndex (\<lambda>r. ident r = i) (arrayList s) = None"
    by (simp add: findIndex_None_iff)
  then show ?thesis by (simp add: deleteReservation_def)
qed

theorem delete_absent_noop_witness:
  "deleteReservation ''id0'' envA twoCars = (NotFound, twoCars)"
proof -
  have h: "\<forall>r \<in> set (arrayList twoCars). ident r \<noteq> ''id0''"
    by (simp add: example_defs)
  from delete_absent_noop [OF h] show ?thesis .
qed

subsection \<open>C8: sortBySlot next to a slot that is not a number\<close>

text \<open>
  C8 is stated for every state. Three inserts with the slot choices 3, abc and 1 leave
  the reservations \<open>carX\<close>, \<open>carN\<close> and \<open>carA\<close> with the slots 3, NaN and 1; the second one
  is the reservation of C1 and C6. The comparator gives NaN whenever \<open>carN\<close> is one of
  its arguments, which the sort reads as equal, so the list is one non-descending run to
  it: \<^verbatim>\<open>sortBySlot\<close> leaves the list as it is, the slot 3 before the slot 1.
\<close>

theorem sortBySlot_keeps_descending_slots:
  "arrayList (run threeInserts) = [carX, carN, carA]
   \<and> map slot (arrayList (run threeInserts)) = [Num 3, NaN, Num 1]
   \<and> sortBySlot (run threeInserts) = Some (run threeInserts)
   \<and> \<not> sorted_wrt jsLessEq (map slot (arrayList (run threeInserts)))
   \<and> jsLess (slot (arrayList (run threeInserts) ! 2)) (slot (arrayList (run threeInserts) ! 0))"
proof -
  have al: "arrayList (run threeInserts) = [carX, carN, carA]"
    by (simp add: threeInserts_run)
  have sl: "map slot [carX, carN, carA] = [Num 3, NaN, Num 1]"
    by (simp add: carX_def carN_def carA_def)
  have so: "sortBySlot (run threeInserts) = Some (run threeInserts)"
    by (simp add: sortBySlot_def al threeInserts_sort)
  show ?thesis
    using sl so by (simp add: al)
qed

subsection \<open>C9: search\<close>

text \<open>
  C9: a term that is empty after trimming clears the result panel: the result set is
  empty. Any other term gives, in the order of ReservationList, the reservations that
  match the trimmed term: those with a plate of which some part is the term letter for
  letter, whatever the case, and those whose slot number has the term as its decimal
  numeral.
\<close>

theorem search_result_set:
  "(trim term = [] \<longrightarrow> search term s = Cleared \<and> results (search term s) = [])
   \<and> (trim term \<noteq> [] \<longrightarrow>
        results (search term s) = filter (specMatch (trim term)) (arrayList s))"
proof -
  have m: "matches t = specMatch t" for t
    by (rule ext) (rule matches_specMatch)
  show ?thesis
    by (auto simp: search_def Let_def m)
qed

theorem search_result_set_witness:
  "results (search '' 3 '' twoCars) = [carX, carA]
   \<and> results (search ''xYz'' twoCars) = [carX]
   \<and> results (search ''1'' twoCars) = [carA]
   \<and> results (search ''20'' twoCars) = []
   \<and> results (search ''   '' twoCars) = []"
proof -
  have t: "trim ''xYz'' = ''xYz''" "trim ''1'' = ''1''" "trim ''20'' = ''20''"
    by (simp_all add: trim_def isWhiteSpace_def)
  have al: "arrayList twoCars = [carX, carA]" by (simp add: twoCars_def)
  have m: "specMatch u = matches u" for u
    by (rule ext) (simp add: matches_specMatch)
  from search_result_set [of "'' 3 ''" twoCars] search_result_set [of "''xYz''" twoCars]
    search_result_set [of "''1''" twoCars] search_result_set [of "''20''" twoCars]
    search_result_set [of "''   ''" twoCars]
  show ?thesis
    by (simp add: trim_examples t al m matches_examples)
qed

subsection \<open>C10: new reservations are appended\<close>

text \<open>
  C10: a successful insert appends its reservation as the last entry of
  ReservationList, and a delete that promotes appends the promoted reservation as the
  last entry, after the entries that stay, which keep their order.
\<close>

theorem new_reservation_appended:
  "(insertReservation p c e s = (Reserved sl nid t, s') \<longrightarrow>
      arrayList s' = arrayList s @ [\<lparr>plate = trim p, time = t, ident = nid, slot = sl\<rparr>])
   \<and> (deleteReservation i e2 s2 = (Promoted pl sl2, s2') \<longrightarrow>
      (\<exists>idx<length (arrayList s2).
         ident (arrayList s2 ! idx) = i \<and>
         arrayList s2' =
           take idx (arrayList s2) @ drop (Suc idx) (arrayList s2) @
           [\<lparr>plate = pl, time = nowString e2, ident = newId e2, slot = sl2\<rparr>]))"
proof (intro conjI impI)
  assume "insertReservation p c e s = (Reserved sl nid t, s')"
  then show "arrayList s' = arrayList s @ [\<lparr>plate = trim p, time = t, ident = nid, slot = sl\<rparr>]"
    by (auto simp: insertReservation_def Let_def split: if_splits sum.splits
        dest: resolveSlot_Inl)
next
  assume del: "deleteReservation i e2 s2 = (Promoted pl sl2, s2')"
  then obtain idx where idx: "findIndex (\<lambda>r. ident r = i) (arrayList s2) = Some idx"
    by (auto simp: deleteReservation_def split: option.splits)
  from findIndex_SomeD [OF idx] have "idx < length (arrayList s2)"
    and "ident (arrayList s2 ! idx) = i" by auto
  moreover from del idx have "arrayList s2' =
           take idx (arrayList s2) @ drop (Suc idx) (arrayList s2) @
           [\<lparr>plate = pl, time = nowString e2, ident = newId e2, slot = sl2\<rparr>]"
    by (auto simp: deleteReservation_def Let_def splice1_def split: list.splits)
  ultimately show "\<exists>idx<length (arrayList s2).
         ident (arrayList s2 ! idx) = i \<and>
         arrayList s2' =
           take idx (arrayList s2) @ drop (Suc idx) (arrayList s2) @
           [\<lparr>plate = pl, time = nowString e2, ident = newId e2, slot = sl2\<rparr>]"
    by blast
qed

theorem new_reservation_appended_witness:
  "arrayList (snd (insertReservation ''NEW 777'' ''auto'' envA twoCars)) =
     arrayList twoCars @
       [\<lparr>plate = ''NEW 777'', time = nowString envA, ident = newId envA, slot = Num 2\<rparr>]
   \<and> (\<exists>idx<length (arrayList fullLot).
         ident (arrayList fullLot ! idx) = ''id0'' \<and>
         arrayList (snd (deleteReservation ''id0'' envB fullLot)) =
           take idx (arrayList fullLot) @ drop (Suc idx) (arrayList fullLot) @
           [\<lparr>plate = ''WAIT A'', time = nowString envB, ident = newId envB, slot = Num 1\<rparr>])"
proof -
  have fi: "findIndexNull (parkingSlots twoCars) = Num 1"
    using findIndexNull_least [of 1 "parkingSlots twoCars"] twoCars_cells twoCars_least
    by (simp add: emptyCell_def)
  have ins: "fst (insertReservation ''NEW 777'' ''auto'' envA twoCars) =
      Reserved (Num 2) (newId envA) (nowString envA)"
    using twoCars_new_plate
    by (simp add: insertReservation_def Let_def trim_examples plateTaken_iff resolveSlot_def fi
        twoCars_length TOTAL_SLOTS_def)
  then have i: "insertReservation ''NEW 777'' ''auto'' envA twoCars =
      (Reserved (Num 2) (newId envA) (nowString envA),
       snd (insertReservation ''NEW 777'' ''auto'' envA twoCars))"
    by (simp add: prod_eq_iff)
  have del: "fst (deleteReservation ''id0'' envB fullLot) = Promoted ''WAIT A'' (Num 1)"
    by (simp add: deleteReservation_def Let_def fullLot_find fullLot_queue waiting_def
        fullLot_head carNo_0)
  then have d: "deleteReservation ''id0'' envB fullLot =
      (Promoted ''WAIT A'' (Num 1), snd (deleteReservation ''id0'' envB fullLot))"
    by (simp add: prod_eq_iff)
  from new_reservation_appended
    [of "''NEW 777''" "''auto''" envA twoCars "Num 2" "newId envA" "nowString envA"
      "snd (insertReservation ''NEW 777'' ''auto'' envA twoCars)"
      "''id0''" envB fullLot "''WAIT A''" "Num 1" "snd (deleteReservation ''id0'' envB fullLot)"]
    i d
  show ?thesis by (simp add: trim_examples)
qed

end
